theory Spec2Isabelle
  imports Main "HOL-Library.Word" "HOL-Library.Signed_Division"
begin

unbundle bit_operations_syntax

section \<open>Panics\<close>

text \<open>A Go \<^verbatim>\<open>panic(msg)\<close> is the left summand of the result, carrying the message.\<close>

datatype panic = Panic string

section \<open>Compact target encoding (asert\_test.go)\<close>

text \<open>\<^verbatim>\<open>big.Int.BitLen\<close>: the length of the absolute value in bits, 0 for 0.\<close>

fun bit_length :: "nat \<Rightarrow> nat" where
  "bit_length n = (if n = 0 then 0 else Suc (bit_length (n div 2)))"

declare bit_length.simps [simp del]

definition BitLen :: "int \<Rightarrow> nat" where
  "BitLen x = bit_length (nat \<bar>x\<bar>)"

definition asertMaxBits :: "32 word" where
  "asertMaxBits = 0x1d00ffff"

text \<open>
  \<^verbatim>\<open>bitsToTargetBCH\<close>: \<^verbatim>\<open>size := bits >> 24\<close>, \<^verbatim>\<open>mant := bits & 0x007fffff\<close>, the
  mantissa as a big integer shifted right by \<^verbatim>\<open>8 * (3 - size)\<close> when \<^verbatim>\<open>size <= 3\<close> and
  left by \<^verbatim>\<open>8 * (size - 3)\<close> otherwise.  The shift amounts are computed on \<^verbatim>\<open>uint32\<close>.
\<close>

definition bitsToTargetBCH :: "32 word \<Rightarrow> int" where
  "bitsToTargetBCH bits =
     (let sz = drop_bit 24 bits;
          mant = bits AND 0x007fffff;
          target = uint mant
      in if sz \<le> 3 then drop_bit (unat (8 * (3 - sz))) target
         else push_bit (unat (8 * (sz - 3))) target)"

text \<open>
  \<^verbatim>\<open>targetToBitsBCH\<close>: panics on a target \<^verbatim>\<open><= 0\<close>, clamps to the target of
  \<^verbatim>\<open>asertMaxBits\<close>, takes the size in bytes from the bit length, moves the top three bytes
  into the mantissa (\<^verbatim>\<open>uint32(tmp.Uint64())\<close> keeps the low 32 bits), and bumps the size
  when bit 23 of the mantissa is set.
\<close>

definition targetToBitsBCH :: "int \<Rightarrow> panic + 32 word" where
  "targetToBitsBCH target =
     (if target \<le> 0 then Inl (Panic ''invalid target sign'')
      else
        let maxTarget = bitsToTargetBCH asertMaxBits;
            t = (if target > maxTarget then maxTarget else target);
            sz = (word_of_nat ((BitLen t + 7) div 8) :: 32 word);
            compact = (if sz \<le> 3
                       then (ucast (word_of_int (push_bit (unat (8 * (3 - sz))) t) :: 64 word) :: 32 word)
                       else (ucast (word_of_int (drop_bit (unat (8 * (sz - 3))) t) :: 64 word) :: 32 word));
            bumped = (compact AND 0x00800000 \<noteq> 0);
            compact' = (if bumped then drop_bit 8 compact else compact);
            sz' = (if bumped then sz + 1 else sz)
        in Inr ((compact' AND 0x007fffff) OR push_bit 24 sz'))"

text \<open>
  The compact values that \<^verbatim>\<open>targetToBitsBCH\<close> can return for a target between 1 and the
  target of \<^verbatim>\<open>asertMaxBits\<close>: bit 23 clear, size between 1 and \<^verbatim>\<open>0x1d\<close>, a mantissa of
  at least \<^verbatim>\<open>0x008000\<close> (at most \<^verbatim>\<open>0x00ffff\<close> at size \<^verbatim>\<open>0x1d\<close>), and no mantissa
  byte that the decoder shifts out.
\<close>

definition compact_normal :: "32 word \<Rightarrow> bool" where
  "compact_normal b \<longleftrightarrow>
     (let sz = drop_bit 24 b; mant = b AND 0x007fffff in
        b AND 0x00800000 = 0 \<and> 1 \<le> sz \<and> sz \<le> 0x1d \<and> 0x008000 \<le> mant \<and>
        (sz = 0x1d \<longrightarrow> mant \<le> 0x00ffff) \<and>
        (sz = 2 \<longrightarrow> mant AND 0xff = 0) \<and>
        (sz = 1 \<longrightarrow> mant AND 0xffff = 0))"

section \<open>ASERT retarget (asert.go)\<close>

definition asertIdealBlockTime :: "64 word" where
  "asertIdealBlockTime = 600"

definition asertHalflife :: "64 word" where
  "asertHalflife = 172800"

definition asertRadix :: "64 word" where
  "asertRadix = push_bit 16 1"

definition asertPolyA :: "64 word" where
  "asertPolyA = 195766423245049"

definition asertPolyB :: "64 word" where
  "asertPolyB = 971821376"

definition asertPolyC :: "64 word" where
  "asertPolyC = 5127"

text \<open>
  Go's \<^verbatim>\<open>/\<close> on \<^verbatim>\<open>int64\<close>: the quotient truncated toward zero, wrapped to 64 bits.
  The only divisor in \<^verbatim>\<open>asert.go\<close> is the non-zero constant \<^verbatim>\<open>asertHalflife\<close>.
\<close>

definition int64_div :: "64 word \<Rightarrow> 64 word \<Rightarrow> 64 word" where
  "int64_div a b = word_of_int (sint a sdiv sint b)"

text \<open>
  Lines 50 to 55 of \<^verbatim>\<open>ASERTNextTarget\<close>: the exponent in 16.16 fixed point, every operation
  on \<^verbatim>\<open>int64\<close> and so wrapping modulo \<open>2\<^sup>6\<^sup>4\<close>.
\<close>

definition asert_exponent :: "64 word \<Rightarrow> 64 word \<Rightarrow> 64 word \<Rightarrow> 64 word \<Rightarrow> 64 word" where
  "asert_exponent anchorHeight anchorParentTime evalHeight evalTime =
     (let timeDelta = evalTime - anchorParentTime;
          heightDelta = evalHeight - anchorHeight;
          numBlocks = heightDelta + 1
      in int64_div ((timeDelta - asertIdealBlockTime * numBlocks) * asertRadix) asertHalflife)"

text \<open>Lines 69 to 72: the cubic in \<^verbatim>\<open>uint64\<close> arithmetic.\<close>

definition asert_poly :: "64 word \<Rightarrow> 64 word" where
  "asert_poly ux =
     (let x2 = ux * ux;
          x3 = x2 * ux
      in asertPolyA * ux + asertPolyB * x2 + asertPolyC * x3 + push_bit 47 1)"

text \<open>Line 73: \<^verbatim>\<open>factor := (poly >> 48) + uint64(asertRadix)\<close>.\<close>

definition asert_factor :: "64 word \<Rightarrow> 64 word" where
  "asert_factor ux = drop_bit 48 (asert_poly ux) + asertRadix"

text \<open>
  Lines 50 to 87: the value of \<^verbatim>\<open>next\<close> before the clamp.  \<^verbatim>\<open>exponent >> 16\<close> on \<^verbatim>\<open>int64\<close>
  is the arithmetic shift; \<^verbatim>\<open>uint64(exponent)\<close> keeps the bits, and so does \<^verbatim>\<open>uint(...)\<close> of
  a shift count (64 bits wide); \<^verbatim>\<open>Rsh\<close> and \<^verbatim>\<open>Lsh\<close> act on an unbounded integer.
\<close>

definition asert_unclamped :: "64 word \<Rightarrow> 64 word \<Rightarrow> int \<Rightarrow> 64 word \<Rightarrow> 64 word \<Rightarrow> int" where
  "asert_unclamped anchorHeight anchorParentTime anchorTarget evalHeight evalTime =
     (let exponent = asert_exponent anchorHeight anchorParentTime evalHeight evalTime;
          numShifts = signed_drop_bit 16 exponent;
          exponent' = exponent - numShifts * asertRadix;
          ux = exponent';
          factor = asert_factor ux;
          next = anchorTarget * uint factor;
          next' = (if sint numShifts < 0 then drop_bit (unat (- numShifts)) next
                   else if 0 < sint numShifts then push_bit (unat numShifts) next
                   else next)
      in drop_bit 16 next')"

text \<open>Lines 89 to 97: the clamp.\<close>

definition asert_clamp :: "int \<Rightarrow> int \<Rightarrow> int" where
  "asert_clamp next maxTarget =
     (if next \<le> 0 then 1
      else if next > maxTarget then maxTarget
      else next)"

definition ASERTNextTarget ::
  "64 word \<Rightarrow> 64 word \<Rightarrow> int \<Rightarrow> 64 word \<Rightarrow> 64 word \<Rightarrow> int \<Rightarrow> panic + int" where
  "ASERTNextTarget anchorHeight anchorParentTime anchorTarget evalHeight evalTime maxTarget =
     (if sint anchorHeight \<le> 0 then Inl (Panic ''ASERTNextTarget: anchorHeight must be > 0'')
      else if anchorTarget \<le> 0 then Inl (Panic ''ASERTNextTarget: anchorTarget must be > 0'')
      else if maxTarget \<le> 0 then Inl (Panic ''ASERTNextTarget: maxTarget must be > 0'')
      else Inr (asert_clamp
                  (asert_unclamped anchorHeight anchorParentTime anchorTarget evalHeight evalTime)
                  maxTarget))"

subsection \<open>Exact arithmetic, for stating when \<^verbatim>\<open>int64\<close> does not wrap\<close>

definition in_int64 :: "int \<Rightarrow> bool" where
  "in_int64 x \<longleftrightarrow> - (2 ^ 63) \<le> x \<and> x < 2 ^ 63"

text \<open>The value an \<^verbatim>\<open>int64\<close> holds after an operation whose exact result is \<open>x\<close>.\<close>

definition wrap64 :: "int \<Rightarrow> int" where
  "wrap64 x = (x + 2 ^ 63) mod 2 ^ 64 - 2 ^ 63"

text \<open>The exact value of \<^verbatim>\<open>timeDelta - asertIdealBlockTime*numBlocks\<close>.\<close>

definition asert_offset :: "64 word \<Rightarrow> 64 word \<Rightarrow> 64 word \<Rightarrow> 64 word \<Rightarrow> int" where
  "asert_offset anchorHeight anchorParentTime evalHeight evalTime =
     (sint evalTime - sint anchorParentTime) - 600 * (sint evalHeight - sint anchorHeight + 1)"

text \<open>No intermediate value of lines 50 to 55 leaves the range of \<^verbatim>\<open>int64\<close>.\<close>

definition asert_no_overflow :: "64 word \<Rightarrow> 64 word \<Rightarrow> 64 word \<Rightarrow> 64 word \<Rightarrow> bool" where
  "asert_no_overflow anchorHeight anchorParentTime evalHeight evalTime \<longleftrightarrow>
     in_int64 (sint evalTime - sint anchorParentTime) \<and>
     in_int64 (sint evalHeight - sint anchorHeight) \<and>
     in_int64 (sint evalHeight - sint anchorHeight + 1) \<and>
     in_int64 (600 * (sint evalHeight - sint anchorHeight + 1)) \<and>
     in_int64 (asert_offset anchorHeight anchorParentTime evalHeight evalTime) \<and>
     in_int64 (asert_offset anchorHeight anchorParentTime evalHeight evalTime * 65536)"

text \<open>
  A shift of an unbounded integer by a signed amount: left for a non-negative amount, right
  (rounding toward minus infinity, as \<^verbatim>\<open>Rsh\<close> does) for a negative one.  Used to state what
  lines 78 to 87 compute.
\<close>

definition shift_int :: "int \<Rightarrow> int \<Rightarrow> int" where
  "shift_int x j = (if j < 0 then x div 2 ^ nat (- j) else x * 2 ^ nat j)"

section \<open>Supply accounting (the RPC API of package xhash)\<close>

text \<open>\<^verbatim>\<open>big.Int.String\<close>: the decimal digits, with a leading minus sign for a negative value.\<close>

definition digit_char :: "nat \<Rightarrow> char" where
  "digit_char d = ''0123456789'' ! d"

fun dec_digits :: "nat \<Rightarrow> string" where
  "dec_digits n = (if n < 10 then [digit_char n] else dec_digits (n div 10) @ [digit_char (n mod 10)])"

declare dec_digits.simps [simp del]

definition big_String :: "int \<Rightarrow> string" where
  "big_String x = (if x < 0 then CHR ''-'' # dec_digits (nat (- x)) else dec_digits (nat x))"

text \<open>Reading a decimal string back as an integer, to compare two supply figures.\<close>

definition digit_value :: "char \<Rightarrow> nat" where
  "digit_value c = of_char c - 48"

definition dec_value :: "string \<Rightarrow> nat" where
  "dec_value cs = fold (\<lambda>c acc. 10 * acc + digit_value c) cs 0"

definition decimal_value :: "string \<Rightarrow> int" where
  "decimal_value cs =
     (case cs of
        [] \<Rightarrow> 0
      | c # cs' \<Rightarrow> if c = CHR ''-'' then - int (dec_value cs') else int (dec_value cs))"

text \<open>The current header of the chain reader exposes the block number; \<^verbatim>\<open>Number.Uint64()\<close>.\<close>

record header =
  Number :: "64 word"

definition halvingInterval :: "64 word" where
  "halvingInterval = 210000"

definition coinbaseMaturity :: "64 word" where
  "coinbaseMaturity = 100"

text \<open>
  \<^verbatim>\<open>calcBlockReward\<close> is declared in another file of the package; both functions take it as
  a parameter.  \<^verbatim>\<open>for era := range fullEras\<close> runs \<^verbatim>\<open>era\<close> over \<open>0, \<dots>, fullEras - 1\<close>.
\<close>

definition GetTotalSupply :: "(64 word \<Rightarrow> int) \<Rightarrow> header option \<Rightarrow> string" where
  "GetTotalSupply calcBlockReward currentHeader =
     (case currentHeader of
        None \<Rightarrow> ''0''
      | Some hdr \<Rightarrow>
          let n = Number hdr;
              fullEras = n div halvingInterval;
              remainder = n mod halvingInterval;
              emissions =
                fold (\<lambda>era emissions.
                        let sampleBlock = era * halvingInterval;
                            reward = calcBlockReward sampleBlock
                        in emissions + uint halvingInterval * reward)
                     (map word_of_nat [0..<unat fullEras]) 0;
              emissions' =
                (if remainder > 0
                 then let sampleBlock = fullEras * halvingInterval;
                          sampleBlock' = (if sampleBlock = 0 then 1 else sampleBlock);
                          reward = calcBlockReward sampleBlock'
                      in emissions + uint remainder * reward
                 else emissions)
          in big_String emissions')"

definition GetCirculatingSupply :: "(64 word \<Rightarrow> int) \<Rightarrow> header option \<Rightarrow> string" where
  "GetCirculatingSupply calcBlockReward currentHeader =
     (case currentHeader of
        None \<Rightarrow> ''0''
      | Some hdr \<Rightarrow>
          let height = Number hdr in
          if height \<le> coinbaseMaturity then ''0''
          else
            let maturedHeight = height - coinbaseMaturity;
                n = maturedHeight;
                fullEras = n div halvingInterval;
                remainder = n mod halvingInterval;
                emissions =
                  fold (\<lambda>era emissions.
                          let sampleBlock = era * halvingInterval;
                              sampleBlock' = (if sampleBlock = 0 then 1 else sampleBlock);
                              reward = calcBlockReward sampleBlock'
                          in emissions + uint halvingInterval * reward)
                       (map word_of_nat [0..<unat fullEras]) 0;
                emissions' =
                  (if remainder > 0
                   then let sampleBlock = fullEras * halvingInterval;
                            sampleBlock' = (if sampleBlock = 0 then 1 else sampleBlock);
                            reward = calcBlockReward sampleBlock'
                        in emissions + uint remainder * reward
                   else emissions)
            in big_String emissions')"

text \<open>
  What the eras after the first and the partial era contribute for a tip \<open>n\<close> of at least
  one full era: the sum that both functions compute once era 0 is set apart.
\<close>

definition later_eras :: "(64 word \<Rightarrow> int) \<Rightarrow> 64 word \<Rightarrow> int" where
  "later_eras calcBlockReward n =
     sum_list (map (\<lambda>era. 210000 * calcBlockReward (word_of_nat era * halvingInterval))
                   [1..<unat (n div halvingInterval)])
     + (if n mod halvingInterval > 0
        then uint (n mod halvingInterval) * calcBlockReward (n div halvingInterval * halvingInterval)
        else 0)"

text \<open>
  A reward schedule in which the genesis block carries no reward (the case the comment
  \<^verbatim>\<open>avoid genesis if it has no reward\<close> provides for) and every later block is paid 50,
  halved at each era.
\<close>

definition genesis_free_reward :: "64 word \<Rightarrow> int" where
  "genesis_free_reward h = (if h = 0 then 0 else 50 div 2 ^ unat (h div 210000))"

text \<open>
  The era summation that both functions share once every era is sampled with the
  substitution of block 1 for block 0: \<open>q\<close> full eras and \<open>m\<close> blocks of the partial era.
\<close>

definition era_emissions :: "(nat \<Rightarrow> int) \<Rightarrow> nat \<Rightarrow> nat \<Rightarrow> int" where
  "era_emissions sample q m = (\<Sum>era\<leftarrow>[0..<q]. 210000 * sample era) + int m * sample q"

definition avoid_genesis :: "(64 word \<Rightarrow> int) \<Rightarrow> nat \<Rightarrow> int" where
  "avoid_genesis calcBlockReward era =
     calcBlockReward (if word_of_nat era * halvingInterval = 0 then 1 else word_of_nat era * halvingInterval)"

section \<open>Properties of the compact encoding\<close>

lemma bit_length_bounds: "0 < n \<Longrightarrow> 2 ^ (bit_length n - 1) \<le> n \<and> n < 2 ^ bit_length n"
proof (induction n rule: bit_length.induct)
  case (1 n)
  show ?case
  proof (cases "n div 2 = 0")
    case True
    with 1 have "n = 1" by presburger
    then show ?thesis by (simp add: bit_length.simps)
  next
    case False
    then have pos: "0 < n div 2" by simp
    from 1 pos have ih: "2 ^ (bit_length (n div 2) - 1) \<le> n div 2 \<and> n div 2 < 2 ^ bit_length (n div 2)"
      by simp
    have bl: "bit_length n = Suc (bit_length (n div 2))"
      using 1 by (subst bit_length.simps) simp
    have blpos: "0 < bit_length (n div 2)"
      using pos by (subst bit_length.simps) simp
    then obtain k where k: "bit_length (n div 2) = Suc k" by (cases "bit_length (n div 2)") auto
    from ih k have "2 ^ k \<le> n div 2" "n div 2 < 2 * 2 ^ k" by simp_all
    then have "2 * 2 ^ k \<le> n" "n < 2 * (2 * 2 ^ k)" by presburger+
    then show ?thesis by (simp add: bl k)
  qed
qed

lemma byte_size_eq:
  assumes "256 ^ k \<le> t" "t < 256 ^ Suc k"
  shows "(BitLen t + 7) div 8 = Suc k"
proof -
  have tpos: "0 < t" using assms(1) by (smt (verit) zero_less_power)
  define n where "n = nat \<bar>t\<bar>"
  have n: "int n = t" "0 < n" using tpos by (simp_all add: n_def)
  from bit_length_bounds [OF n(2)]
  have b: "2 ^ (bit_length n - 1) \<le> n" "n < 2 ^ bit_length n" by simp_all
  have p: "(256::nat) ^ j = 2 ^ (8 * j)" for j
    by (simp add: power_mult)
  have "int (256 ^ k) \<le> int n" "int n < int (256 ^ Suc k)"
    using assms unfolding n(1) [symmetric] by simp_all
  then have "(256::nat) ^ k \<le> n" "n < 256 ^ Suc k"
    by (simp_all only: of_nat_le_iff of_nat_less_iff)
  then have lo: "(2::nat) ^ (8 * k) \<le> n" and hi: "n < 2 ^ (8 * Suc k)"
    unfolding p by simp_all
  from lo b(2) have "(2::nat) ^ (8 * k) < 2 ^ bit_length n" by (rule le_less_trans)
  then have 1: "8 * k < bit_length n" by (rule power_less_imp_less_exp [rotated]) simp
  from b(1) hi have "(2::nat) ^ (bit_length n - 1) < 2 ^ (8 * Suc k)" by (rule le_less_trans)
  then have 2: "bit_length n - 1 < 8 * Suc k" by (rule power_less_imp_less_exp [rotated]) simp
  have "(bit_length n + 7) div 8 = Suc k"
  proof (rule div_nat_eqI)
    show "8 * Suc k \<le> bit_length n + 7" using 1 by simp
    show "bit_length n + 7 < 8 * Suc (Suc k)" using 2 by simp
  qed
  then show ?thesis by (simp only: BitLen_def n_def)
qed

lemma maxTarget_value: "bitsToTargetBCH asertMaxBits = 0xffff * 256 ^ 26"
  by (simp add: bitsToTargetBCH_def asertMaxBits_def push_bit_eq_mult)

lemma ucast_low32: "(ucast (word_of_int x :: 64 word) :: 32 word) = word_of_int x"
  by (simp add: unsigned_ucast_eq word_of_int_eq_iff unsigned_of_int take_bit_take_bit min_def)
  
lemma pow256: "(2::int) ^ (8 * j) = 256 ^ j"
  by (simp add: power_mult)

lemma size_word_le: "n < 256 \<Longrightarrow> (word_of_nat n :: 32 word) \<le> 3 \<longleftrightarrow> n \<le> 3"
  by (simp add: word_le_nat_alt unat_of_nat)

lemma shift_lo: "n \<le> 3 \<Longrightarrow> unat (8 * (3 - word_of_nat n :: 32 word)) = 8 * (3 - n)"
proof -
  assume n: "n \<le> 3"
  have "(3 :: 32 word) - word_of_nat n = word_of_nat (3 - n)"
    using n by (simp add: of_nat_diff)
  then have "unat (8 * (3 - word_of_nat n :: 32 word)) = unat (8 * word_of_nat (3 - n) :: 32 word)"
    by (simp only:)
  also have "\<dots> = unat (word_of_nat (8 * (3 - n)) :: 32 word)"
    by (simp only: of_nat_mult of_nat_numeral)
  also have "\<dots> = 8 * (3 - n)"
    unfolding unat_of_nat using n by simp
  finally show ?thesis .
qed

lemma shift_hi: "3 < n \<Longrightarrow> n < 256 \<Longrightarrow> unat (8 * (word_of_nat n - 3 :: 32 word)) = 8 * (n - 3)"
proof -
  assume n: "3 < n" "n < 256"
  have "(word_of_nat n :: 32 word) - 3 = word_of_nat (n - 3)"
    using n by (simp add: of_nat_diff)
  then have "unat (8 * (word_of_nat n - 3 :: 32 word)) = unat (8 * word_of_nat (n - 3) :: 32 word)"
    by (simp only:)
  also have "\<dots> = unat (word_of_nat (8 * (n - 3)) :: 32 word)"
    by (simp only: of_nat_mult of_nat_numeral)
  also have "\<dots> = 8 * (n - 3)"
    unfolding unat_of_nat using n by simp
  finally show ?thesis .
qed


lemma targetToBitsBCH_sized:
  assumes lo: "256 ^ k \<le> t" and hi: "t < 256 ^ Suc k" and mx: "t \<le> 0xffff * 256 ^ 26"
  shows "targetToBitsBCH t =
    Inr (let c = (if k \<le> 2 then word_of_int (t * 256 ^ (2 - k)) else word_of_int (t div 256 ^ (k - 2))) :: 32 word
         in if c AND 0x00800000 \<noteq> 0
            then (drop_bit 8 c AND 0x007fffff) OR push_bit 24 (word_of_nat (Suc k) + 1)
            else (c AND 0x007fffff) OR push_bit 24 (word_of_nat (Suc k)))"
proof -
  have tpos: "0 < t" using lo by (smt (verit) zero_less_power)
  have "(256::int) ^ k < 256 ^ 29" using lo mx by simp
  then have k: "k < 29" by (rule power_less_imp_less_exp [rotated]) simp
  have sz: "(BitLen t + 7) div 8 = Suc k" using lo hi by (rule byte_size_eq)
  have clamp: "\<not> t > bitsToTargetBCH asertMaxBits" using mx by (simp add: maxTarget_value)
  show ?thesis
  proof (cases "k \<le> 2")
    case True
    then have a: "(word_of_nat (Suc k) :: 32 word) \<le> 3" by (subst size_word_le) simp_all
    have b: "unat (8 * (3 - word_of_nat (Suc k) :: 32 word)) = 8 * (2 - k)"
      using True shift_lo [of "Suc k"] by simp
    show ?thesis
      unfolding targetToBitsBCH_def using tpos True
      by (simp only: Let_def clamp sz a b if_True if_False ucast_low32 push_bit_eq_mult pow256) simp
  next
    case False
    then have a: "\<not> (word_of_nat (Suc k) :: 32 word) \<le> 3" using k by (subst size_word_le) simp_all
    have b: "unat (8 * (word_of_nat (Suc k) - 3 :: 32 word)) = 8 * (k - 2)"
      using False k shift_hi [of "Suc k"] by simp
    show ?thesis
      unfolding targetToBitsBCH_def using tpos False
      by (simp only: Let_def clamp sz a b if_True if_False ucast_low32 drop_bit_eq_div pow256) simp
  qed
qed


lemma mask23: "(b :: 32 word) AND 0x007fffff = take_bit 23 b"
  by (simp add: take_bit_eq_mask mask_eq_exp_minus_1)

lemma mask8: "(b :: 32 word) AND 0xff = take_bit 8 b"
  by (simp add: take_bit_eq_mask mask_eq_exp_minus_1)

lemma mask16: "(b :: 32 word) AND 0xffff = take_bit 16 b"
  by (simp add: take_bit_eq_mask mask_eq_exp_minus_1)

lemma bit23: "(b :: 32 word) AND 0x00800000 = 0 \<longleftrightarrow> \<not> bit b 23"
proof -
  have "(0x00800000 :: 32 word) = 2 ^ 23" by simp
  then show ?thesis by (simp only: and_exp_eq_0_iff_not_bit)
qed

lemma pack_eq:
  assumes "(b :: 32 word) AND 0x00800000 = 0"
  shows "((b AND 0x007fffff) AND 0x007fffff) OR push_bit 24 (drop_bit 24 b) = b"
proof -
  have nb: "\<not> bit b 23" using assms bit23 [of b] by blast
  show ?thesis
    unfolding mask23
  proof (rule bit_word_eqI)
    fix n assume n: "n < LENGTH(32)"
    have 1: "bit (take_bit 23 (take_bit 23 b)) n \<longleftrightarrow> n < 23 \<and> bit b n"
      by (simp add: bit_take_bit_iff)
    have 2: "bit (push_bit 24 (drop_bit 24 b)) n \<longleftrightarrow> 24 \<le> n \<and> bit b n"
      using n by (auto simp add: bit_push_bit_iff bit_drop_bit_eq)
    have 3: "n = 23 \<Longrightarrow> \<not> bit b n" using nb by blast
    have "n < 23 \<or> n = 23 \<or> 24 \<le> n" by arith
    then show "bit (take_bit 23 (take_bit 23 b) OR push_bit 24 (drop_bit 24 b)) n = bit b n"
      unfolding bit_or_iff 1 2 using 3 by auto
  qed
qed

lemma bitsToTargetBCH_nat:
  "bitsToTargetBCH b =
     (let s = unat (drop_bit 24 b); m = uint (b AND 0x007fffff)
      in if s \<le> 3 then m div 256 ^ (3 - s) else m * 256 ^ (s - 3))"
proof -
  define s where "s = unat (drop_bit 24 b)"
  have S: "drop_bit 24 b = word_of_nat s" by (simp add: s_def)
  have "unat b < 2 ^ 32" using unsigned_less [of b] by simp
  then have "unat b div 2 ^ 24 < 256" by simp
  then have s: "s < 256" by (simp add: s_def drop_bit_eq_div unat_div)
  show ?thesis
  proof (cases "s \<le> 3")
    case True
    then show ?thesis
      unfolding bitsToTargetBCH_def Let_def S s_def [symmetric]
      using s by (simp only: size_word_le shift_lo if_True drop_bit_eq_div pow256 unat_of_nat) simp
  next
    case False
    then show ?thesis
      unfolding bitsToTargetBCH_def Let_def S s_def [symmetric]
      using s by (simp only: size_word_le shift_hi if_False push_bit_eq_mult pow256 unat_of_nat) simp
  qed
qed


lemma mantissa_of_sized:
  fixes t c :: int
  assumes "t * 256 ^ 3 = c * 256 ^ Suc k"
  shows "(if k \<le> 2 then t * 256 ^ (2 - k) else t div 256 ^ (k - 2)) = c"
proof (cases "k \<le> 2")
  case True
  then have "(256::int) ^ 3 = 256 ^ (2 - k) * 256 ^ Suc k"
    by (simp only: power_add [symmetric]) simp
  with assms have "(t * 256 ^ (2 - k)) * 256 ^ Suc k = c * 256 ^ Suc k"
    by (simp only: mult.assoc)
  then have "t * 256 ^ (2 - k) = c" by (simp only: mult_cancel_right) simp
  with True show ?thesis by simp
next
  case False
  then have "(256::int) ^ Suc k = 256 ^ (k - 2) * 256 ^ 3"
    by (simp only: power_add [symmetric]) simp
  with assms have "t * 256 ^ 3 = (c * 256 ^ (k - 2)) * 256 ^ 3"
    by (simp only: mult.assoc)
  then have "t = c * 256 ^ (k - 2)" by (simp only: mult_cancel_right) simp
  with False show ?thesis by simp
qed

lemma sized_bounds:
  fixes t c :: int
  assumes e: "t * 256 ^ 3 = c * 256 ^ Suc k" and lo: "256 ^ 2 \<le> c" and hi: "c < 256 ^ 3"
  shows "256 ^ k \<le> t" and "t < 256 ^ Suc k"
proof -
  have "(256::int) ^ k * 256 ^ 3 = 256 ^ 2 * 256 ^ Suc k"
    by simp
  also have "\<dots> \<le> c * 256 ^ Suc k"
    using lo by (rule mult_right_mono) simp
  finally have "(256::int) ^ k * 256 ^ 3 \<le> t * 256 ^ 3" by (simp only: e)
  then show "256 ^ k \<le> t" by simp
  have "c * 256 ^ Suc k < 256 ^ 3 * (256::int) ^ Suc k"
    using hi by (rule mult_strict_right_mono) simp
  then have "t * 256 ^ 3 < 256 ^ Suc k * (256::int) ^ 3" by (simp only: e mult.commute)
  then show "t < 256 ^ Suc k" by simp
qed

lemma compact_normal_facts:
  assumes "compact_normal b"
  defines "s \<equiv> unat (drop_bit 24 b)" and "m \<equiv> uint (b AND 0x007fffff)"
  shows "1 \<le> s" "s \<le> 29" "0x8000 \<le> m" "m < 2 ^ 23" "s = 29 \<longrightarrow> m \<le> 0xffff"
    "s = 2 \<longrightarrow> m mod 256 = 0" "s = 1 \<longrightarrow> m mod 65536 = 0" "b AND 0x00800000 = 0"
proof -
  let ?S = "drop_bit 24 b" and ?M = "b AND 0x007fffff"
  from assms(1) have a: "b AND 0x00800000 = 0" "1 \<le> ?S" "?S \<le> 0x1d" "0x008000 \<le> ?M"
    "?S = 0x1d \<longrightarrow> ?M \<le> 0x00ffff" "?S = 2 \<longrightarrow> ?M AND 0xff = 0" "?S = 1 \<longrightarrow> ?M AND 0xffff = 0"
    by (simp_all add: compact_normal_def Let_def)
  show "b AND 0x00800000 = 0" by fact
  show "1 \<le> s" using a(2) by (simp add: s_def word_le_nat_alt)
  show "s \<le> 29" using a(3) by (simp add: s_def word_le_nat_alt)
  show "0x8000 \<le> m" using a(4) by (simp add: m_def word_le_def)
  have "m = take_bit 23 (uint b)" by (simp only: m_def mask23 unsigned_take_bit_eq)
  then show "m < 2 ^ 23" using take_bit_int_less_exp [of 23 "uint b"] by simp
  have e: "?S = word_of_nat k \<longleftrightarrow> s = k" if "k < 2 ^ 32" for k
    using that by (auto simp add: s_def unat_of_nat word_unat_eq_iff)
  show "s = 29 \<longrightarrow> m \<le> 0xffff" using a(5) e [of 29] by (simp add: m_def word_le_def)
  have "uint (?M AND 0xff) = take_bit 8 (uint ?M)"
    by (simp only: mask8 unsigned_take_bit_eq)
  also have "\<dots> = uint ?M mod 2 ^ 8" by (rule take_bit_eq_mod)
  finally have m8: "uint (?M AND 0xff) = m mod 256" by (simp add: m_def)
  have "uint (?M AND 0xffff) = take_bit 16 (uint ?M)"
    by (simp only: mask16 unsigned_take_bit_eq)
  also have "\<dots> = uint ?M mod 2 ^ 16" by (rule take_bit_eq_mod)
  finally have m16: "uint (?M AND 0xffff) = m mod 65536" by (simp add: m_def)
  show "s = 2 \<longrightarrow> m mod 256 = 0" using a(6) e [of 2] m8 by auto
  show "s = 1 \<longrightarrow> m mod 65536 = 0" using a(7) e [of 1] m16 by auto
qed

lemma bump_case:
  fixes M :: "32 word"
  assumes lo: "0x8000 \<le> uint M" and hi: "uint M < 0x10000"
  shows "word_of_int (256 * uint M) AND (0x00800000 :: 32 word) \<noteq> 0"
    and "drop_bit 8 (word_of_int (256 * uint M) :: 32 word) = M"
proof -
  have w: "(word_of_int (256 * uint M) :: 32 word) = push_bit 8 M"
    by (simp add: push_bit_eq_mult)
  have "uint M div 2 ^ 15 = 1" using lo hi by simp
  then have "bit (uint M) 15" by (simp add: bit_iff_odd)
  then have b15: "bit M 15" by (simp add: bit_uint_iff)
  have "bit (push_bit 8 M) 23" using b15 by (simp add: bit_push_bit_iff)
  then show "word_of_int (256 * uint M) AND (0x00800000 :: 32 word) \<noteq> 0"
    unfolding w using bit23 [of "push_bit 8 M"] by blast
  have "uint M < 2 ^ 24" using hi by simp
  then have "take_bit 24 (uint M) = uint M"
    by (intro take_bit_int_eq_self) simp_all
  then have "uint (take_bit 24 M) = uint M"
    by (simp only: unsigned_take_bit_eq)
  then have "take_bit 24 M = M"
    by (simp only: word_uint_eq_iff)
  moreover have "drop_bit 8 (push_bit 8 M) = take_bit 24 M"
    by (rule bit_word_eqI) (auto simp add: bit_simps)
  ultimately show "drop_bit 8 (word_of_int (256 * uint M) :: 32 word) = M"
    unfolding w by simp
qed

lemma packed_fields:
  fixes M S :: "32 word"
  assumes M: "M < 0x800000" and S: "S < 0x100"
  shows "drop_bit 24 ((M AND 0x007fffff) OR push_bit 24 S) = S"
    and "((M AND 0x007fffff) OR push_bit 24 S) AND 0x007fffff = M"
    and "((M AND 0x007fffff) OR push_bit 24 S) AND 0x00800000 = 0"
proof -
  have "uint M < 2 ^ 23" using M by (simp add: word_less_def)
  then have "take_bit 23 (uint M) = uint M" by (intro take_bit_int_eq_self) simp_all
  then have "uint (take_bit 23 M) = uint M" by (simp only: unsigned_take_bit_eq)
  then have tM: "take_bit 23 M = M" by (simp only: word_uint_eq_iff)
  have "uint S < 2 ^ 8" using S by (simp add: word_less_def)
  then have "take_bit 8 (uint S) = uint S" by (intro take_bit_int_eq_self) simp_all
  then have "uint (take_bit 8 S) = uint S" by (simp only: unsigned_take_bit_eq)
  then have tS: "take_bit 8 S = S" by (simp only: word_uint_eq_iff)
  let ?w = "take_bit 23 M OR push_bit 24 (take_bit 8 S)"
  have 1: "drop_bit 24 ?w = take_bit 8 S"
    by (rule bit_word_eqI) (auto simp add: bit_simps)
  have 2: "take_bit 23 ?w = take_bit 23 M"
    by (rule bit_word_eqI) (auto simp add: bit_simps)
  have 3: "\<not> bit ?w 23"
    by (auto simp add: bit_simps)
  show "drop_bit 24 ((M AND 0x007fffff) OR push_bit 24 S) = S"
    using 1 unfolding mask23 tM tS .
  show "((M AND 0x007fffff) OR push_bit 24 S) AND 0x007fffff = M"
    using 2 unfolding mask23 tM tS .
  show "((M AND 0x007fffff) OR push_bit 24 S) AND 0x00800000 = 0"
    using 3 unfolding mask23 bit23 tM tS .
qed

lemma compact_normal_packI:
  fixes M S :: "32 word"
  assumes "0x8000 \<le> M" "M < 0x800000" "1 \<le> S" "S \<le> 0x1d" "S = 0x1d \<longrightarrow> M \<le> 0xffff"
    "S = 2 \<longrightarrow> M AND 0xff = 0" "S = 1 \<longrightarrow> M AND 0xffff = 0"
  shows "compact_normal ((M AND 0x007fffff) OR push_bit 24 S)"
proof -
  have "S < 0x100" using assms(4) by (simp add: word_le_def word_less_def)
  note f = packed_fields [OF assms(2) this]
  show ?thesis
    unfolding compact_normal_def Let_def f using assms by simp
qed


lemma targetToBitsBCH_clamped:
  assumes "bitsToTargetBCH asertMaxBits < t"
  shows "targetToBitsBCH t = targetToBitsBCH (bitsToTargetBCH asertMaxBits)"
proof -
  define mx where "mx = bitsToTargetBCH asertMaxBits"
  have p: "0 < mx" by (simp add: mx_def maxTarget_value)
  have a: "\<not> t \<le> 0" "mx < t" "\<not> mx \<le> 0" "\<not> mx < mx"
    using assms p by (simp_all add: mx_def)
  show ?thesis
    unfolding targetToBitsBCH_def Let_def mx_def [symmetric]
    by (simp only: a if_True if_False)
qed

lemma exists_byte_size:
  fixes t :: int
  assumes "0 < t"
  shows "\<exists>k. 256 ^ k \<le> t \<and> t < 256 ^ Suc k"
proof -
  have "1 \<le> nat t" using assms by simp
  with ex_power_ivl1 [of 256 "nat t"] obtain n where n: "256 ^ n \<le> nat t" "nat t < 256 ^ (n + 1)"
    by auto
  have "int (256 ^ n) \<le> int (nat t)" "int (nat t) < int (256 ^ (n + 1))"
    using n by (simp_all only: of_nat_le_iff of_nat_less_iff)
  then have "256 ^ n \<le> t" "t < 256 ^ Suc n" using assms by simp_all
  then show ?thesis by blast
qed


lemma low_byte_zero:
  fixes M :: "32 word"
  assumes "uint M mod 256 = 0"
  shows "M AND 0xff = 0"
proof -
  have "uint (M AND 0xff) = take_bit 8 (uint M)" by (simp only: mask8 unsigned_take_bit_eq)
  also have "\<dots> = uint M mod 2 ^ 8" by (rule take_bit_eq_mod)
  also have "\<dots> = 0" using assms by simp
  finally show ?thesis by (simp only: unsigned_eq_0_iff)
qed

lemma low_two_bytes_zero:
  fixes M :: "32 word"
  assumes "uint M mod 65536 = 0"
  shows "M AND 0xffff = 0"
proof -
  have "uint (M AND 0xffff) = take_bit 16 (uint M)" by (simp only: mask16 unsigned_take_bit_eq)
  also have "\<dots> = uint M mod 2 ^ 16" by (rule take_bit_eq_mod)
  also have "\<dots> = 0" using assms by simp
  finally show ?thesis by (simp only: unsigned_eq_0_iff)
qed

lemma sized_mantissa_bounds:
  fixes t :: int
  assumes lo: "256 ^ k \<le> t" and hi: "t < 256 ^ Suc k"
  defines "ci \<equiv> (if k \<le> 2 then t * 256 ^ (2 - k) else t div 256 ^ (k - 2))"
  shows "256 ^ 2 \<le> ci" and "ci < 256 ^ 3"
proof -
  show "256 ^ 2 \<le> ci"
  proof (cases "k \<le> 2")
    case True
    then have "(256::int) ^ 2 = 256 ^ k * 256 ^ (2 - k)" by (simp only: power_add [symmetric]) simp
    also have "\<dots> \<le> t * 256 ^ (2 - k)" using lo by (rule mult_right_mono) simp
    finally show ?thesis using True by (simp add: ci_def)
  next
    case False
    then have "2 + (k - 2) = k" by simp
    moreover have "(256::int) ^ (2 + (k - 2)) = 256 ^ 2 * 256 ^ (k - 2)" by (rule power_add)
    ultimately have "(256::int) ^ k = 256 ^ 2 * 256 ^ (k - 2)" by (simp only:)
    then have "256 ^ 2 * 256 ^ (k - 2) \<le> t" using lo by (simp only:)
    then have "256 ^ 2 * 256 ^ (k - 2) div 256 ^ (k - 2) \<le> t div 256 ^ (k - 2)"
      by (rule zdiv_mono1) simp
    then show ?thesis using False by (simp add: ci_def)
  qed
  show "ci < 256 ^ 3"
  proof (cases "k \<le> 2")
    case True
    then have e: "(256::int) ^ 3 = 256 ^ Suc k * 256 ^ (2 - k)" by (simp only: power_add [symmetric]) simp
    have "t * 256 ^ (2 - k) < 256 ^ Suc k * 256 ^ (2 - k)" using hi by (rule mult_strict_right_mono) simp
    then show ?thesis using True unfolding e [symmetric] by (simp add: ci_def)
  next
    case False
    then have "3 + (k - 2) = Suc k" by simp
    moreover have "(256::int) ^ (3 + (k - 2)) = 256 ^ 3 * 256 ^ (k - 2)" by (rule power_add)
    ultimately have "(256::int) ^ Suc k = 256 ^ 3 * 256 ^ (k - 2)" by (simp only:)
    then have "t < 256 ^ 3 * 256 ^ (k - 2)" using hi by (simp only:)
    moreover have "t div 256 ^ (k - 2) * 256 ^ (k - 2) \<le> t"
    proof -
      have "(0::int) \<le> t mod 256 ^ (k - 2)" by simp
      with div_mult_mod_eq [of t "256 ^ (k - 2)"] show ?thesis by linarith
    qed
    ultimately have "t div 256 ^ (k - 2) * 256 ^ (k - 2) < 256 ^ 3 * 256 ^ (k - 2)"
      by (rule le_less_trans [rotated])
    then have "t div 256 ^ (k - 2) < 256 ^ 3"
      by (rule mult_right_less_imp_less) simp
    then show ?thesis using False by (simp add: ci_def)
  qed
qed


lemma size_word_unat: "n < 256 \<Longrightarrow> unat (word_of_nat n :: 32 word) = n"
  by (simp add: unat_of_nat)

lemma targetToBitsBCH_normal_unclamped:
  assumes tpos: "0 < t" and mx: "t \<le> 0xffff * 256 ^ 26"
  shows "\<exists>c. targetToBitsBCH t = Inr c \<and> compact_normal c"
proof -
  from exists_byte_size [OF tpos] obtain k where lo: "256 ^ k \<le> t" and hi: "t < 256 ^ Suc k"
    by blast
  have "(256::int) ^ k < 256 ^ 28" using lo mx by simp
  then have k: "k < 28" by (rule power_less_imp_less_exp [rotated]) simp
  define ci where "ci = (if k \<le> 2 then t * 256 ^ (2 - k) else t div 256 ^ (k - 2))"
  note cb = sized_mantissa_bounds [OF lo hi, folded ci_def]
  define M :: "32 word" where "M = word_of_int ci"
  have uM: "uint M = ci"
    using cb by (simp add: M_def uint_word_of_int)
  define S :: "32 word" where "S = word_of_nat (Suc k)"
  have uS: "unat S = Suc k" unfolding S_def using k by (intro size_word_unat) simp
  have S1: "unat (S + 1) = Suc (Suc k)"
  proof -
    have "S + 1 = word_of_nat (Suc (Suc k))" by (simp add: S_def)
    then show ?thesis using k by (simp only: size_word_unat) 
  qed
  have enc: "targetToBitsBCH t =
      Inr (if M AND 0x00800000 \<noteq> 0 then (drop_bit 8 M AND 0x007fffff) OR push_bit 24 (S + 1)
           else (M AND 0x007fffff) OR push_bit 24 S)"
    unfolding targetToBitsBCH_sized [OF lo hi mx] Let_def
      if_distrib [of word_of_int, symmetric] ci_def [symmetric] M_def [symmetric] S_def [symmetric] ..
  show ?thesis
  proof (cases "M AND 0x00800000 = 0")
    case True
    then have "\<not> bit M 23" using bit23 [of M] by blast
    then have "\<not> bit ci 23" by (simp add: M_def bit_word_of_int_iff)
    then have ev: "even (ci div 8388608)" by (simp add: bit_iff_odd)
    have "ci div 8388608 < 2" "0 \<le> ci div 8388608" using cb by simp_all
    then have "ci div 8388608 = 0 \<or> ci div 8388608 = 1" by linarith
    with ev have "ci div 8388608 = 0" by auto
    then have c23: "ci < 2 ^ 23" using cb by simp
    have "compact_normal ((M AND 0x007fffff) OR push_bit 24 S)"
    proof (rule compact_normal_packI)
      show "0x8000 \<le> M" using cb by (simp add: word_le_def uM)
      show "M < 0x800000" using c23 by (simp add: word_less_def uM)
      show "1 \<le> S" by (simp add: word_le_nat_alt uS)
      show "S \<le> 0x1d" using k by (simp add: word_le_nat_alt uS)
      show "S = 0x1d \<longrightarrow> M \<le> 0xffff"
      proof
        assume "S = 0x1d"
        then have "unat S = 29" by simp
        then show "M \<le> 0xffff" using k uS by simp
      qed
      show "S = 2 \<longrightarrow> M AND 0xff = 0"
      proof
        assume "S = 2"
        then have "unat S = 2" by simp
        then have "k = 1" using uS by simp
        then have "ci = t * 256" by (simp add: ci_def)
        then have "uint M mod 256 = 0" by (simp add: uM)
        then show "M AND 0xff = 0" by (rule low_byte_zero)
      qed
      show "S = 1 \<longrightarrow> M AND 0xffff = 0"
      proof
        assume "S = 1"
        then have "unat S = 1" by simp
        then have "k = 0" using uS by simp
        then have "ci = t * 65536" by (simp add: ci_def)
        then have "uint M mod 65536 = 0" by (simp add: uM)
        then show "M AND 0xffff = 0" by (rule low_two_bytes_zero)
      qed
    qed
    with True enc show ?thesis by simp
  next
    case False
    then have "bit M 23" using bit23 [of M] by blast
    then have "bit ci 23" by (simp add: M_def bit_word_of_int_iff)
    then have "odd (ci div 8388608)" by (simp add: bit_iff_odd)
    then have "ci div 8388608 \<noteq> 0" by auto
    then have c23: "2 ^ 23 \<le> ci" using cb by simp
    define M' where "M' = drop_bit 8 M"
    have uM': "uint M' = ci div 256"
      by (simp add: M'_def drop_bit_eq_div uint_div uM)
    have "compact_normal ((M' AND 0x007fffff) OR push_bit 24 (S + 1))"
    proof (rule compact_normal_packI)
      show "0x8000 \<le> M'" using c23 by (simp add: word_le_def uM')
      show "M' < 0x800000" using cb by (simp add: word_less_def uM')
      show "1 \<le> S + 1" by (simp add: word_le_nat_alt S1)
      show "S + 1 \<le> 0x1d" using k by (simp add: word_le_nat_alt S1)
      have "ci div 256 \<le> 65535" using cb by simp
      then show "S + 1 = 0x1d \<longrightarrow> M' \<le> 0xffff"
        by (simp add: word_le_def uM')
      show "S + 1 = 2 \<longrightarrow> M' AND 0xff = 0"
      proof
        assume "S + 1 = 2"
        then have "unat (S + 1) = 2" by simp
        then have "k = 0" using S1 by simp
        then have "ci = t * 65536" by (simp add: ci_def)
        then have "uint M' mod 256 = 0" by (simp add: uM')
        then show "M' AND 0xff = 0" by (rule low_byte_zero)
      qed
      show "S + 1 = 1 \<longrightarrow> M' AND 0xffff = 0"
      proof
        assume "S + 1 = 1"
        then have "unat (S + 1) = 1" by simp
        then show "M' AND 0xffff = 0" using S1 by simp
      qed
    qed
    with False enc show ?thesis by (simp add: M'_def)
  qed
qed

text \<open>
  Every value that \<^verbatim>\<open>targetToBitsBCH\<close> returns is in the normal form, so the normal form is
  exactly the set of compact values that can come back from a round trip.
\<close>

lemma targetToBitsBCH_normal:
  assumes "targetToBitsBCH t = Inr c"
  shows "compact_normal c"
proof -
  have tpos: "0 < t" using assms by (cases "t \<le> 0") (simp_all add: targetToBitsBCH_def)
  show ?thesis
  proof (cases "bitsToTargetBCH asertMaxBits < t")
    case True
    have "\<exists>c. targetToBitsBCH (0xffff * 256 ^ 26) = Inr c \<and> compact_normal c"
      by (rule targetToBitsBCH_normal_unclamped) simp_all
    then show ?thesis
      using assms unfolding targetToBitsBCH_clamped [OF True] maxTarget_value by auto
  next
    case False
    then have "t \<le> 0xffff * 256 ^ 26" by (simp add: maxTarget_value)
    from targetToBitsBCH_normal_unclamped [OF tpos this] assms show ?thesis by auto
  qed
qed

text \<open>
  C1, as amended: a compact value in the normal form \<^const>\<open>compact_normal\<close> (bit 23 clear,
  size from 1 to \<^verbatim>\<open>0x1d\<close>, mantissa at least \<^verbatim>\<open>0x008000\<close>, decoded target at most the
  maximum target, no non-zero mantissa byte shifted out by the decoder) is returned unchanged
  by decoding with \<^verbatim>\<open>bitsToTargetBCH\<close> and encoding again with \<^verbatim>\<open>targetToBitsBCH\<close>.
\<close>

theorem compact_roundtrip_normal:
  assumes nf: "compact_normal b"
  shows "targetToBitsBCH (bitsToTargetBCH b) = Inr b"
proof -
  define s where "s = unat (drop_bit 24 b)"
  define m where "m = uint (b AND 0x007fffff)"
  define t where "t = bitsToTargetBCH b"
  note f = compact_normal_facts [OF nf, folded s_def m_def]
  have S: "word_of_nat s = drop_bit 24 b" by (simp add: s_def)
  have M: "word_of_int m = b AND 0x007fffff" by (simp add: m_def)
  have tdef: "t = (if s \<le> 3 then m div 256 ^ (3 - s) else m * 256 ^ (s - 3))"
    unfolding t_def bitsToTargetBCH_nat Let_def s_def m_def ..
  have rel: "t * 256 ^ 3 = m * 256 ^ s"
  proof -
    consider "s = 1" | "s = 2" | "s = 3" | "3 < s" using f(1) by linarith
    then show ?thesis
    proof cases
      case 1
      then have "m mod 65536 = 0" using f(7) by simp
      then have "65536 dvd m" by (simp only: dvd_eq_mod_eq_0)
      then have "m div 65536 * 65536 = m" by (rule dvd_div_mult_self)
      then show ?thesis using 1 by (simp add: tdef)
    next
      case 2
      then have "m mod 256 = 0" using f(6) by simp
      then have "256 dvd m" by (simp only: dvd_eq_mod_eq_0)
      then have "m div 256 * 256 = m" by (rule dvd_div_mult_self)
      then show ?thesis using 2 by (simp add: tdef)
    next
      case 3
      then show ?thesis by (simp add: tdef)
    next
      case 4
      then have "(256::int) ^ s = 256 ^ (s - 3) * 256 ^ 3"
        by (simp only: power_add [symmetric]) simp
      then show ?thesis using 4 by (simp add: tdef)
    qed
  qed
  have mx: "t \<le> 0xffff * 256 ^ 26"
  proof -
    have "m * 256 ^ s \<le> 0xffff * 256 ^ 29"
    proof (cases "s = 29")
      case True
      then show ?thesis using f(5) by simp
    next
      case False
      then have "s \<le> 28" using f(2) by simp
      then have "(256::int) ^ s \<le> 256 ^ 28" by (intro power_increasing) simp_all
      moreover have "0 \<le> m" "m \<le> 2 ^ 23" using f(3,4) by simp_all
      ultimately have "m * 256 ^ s \<le> 2 ^ 23 * 256 ^ 28"
        by (intro mult_mono) simp_all
      then show ?thesis by simp
    qed
    moreover have "(0xffff * 256 ^ 26) * 256 ^ 3 = (0xffff :: int) * 256 ^ 29" by simp
    ultimately have "t * 256 ^ 3 \<le> (0xffff * 256 ^ 26) * 256 ^ 3" by (simp only: rel)
    then show ?thesis by (rule mult_right_le_imp_le) simp
  qed
  show ?thesis
  proof (cases "0x10000 \<le> m")
    case True
    obtain k where k: "s = Suc k" using f(1) by (cases s) simp_all
    have e: "t * 256 ^ 3 = m * 256 ^ Suc k" using rel k by simp
    have b: "256 ^ k \<le> t" "t < 256 ^ Suc k"
      using sized_bounds [OF e] True f(4) by simp_all
    have c: "(if k \<le> 2 then t * 256 ^ (2 - k) else t div 256 ^ (k - 2)) = m"
      using e by (rule mantissa_of_sized)
    have c': "(if k \<le> 2 then word_of_int (t * 256 ^ (2 - k)) else word_of_int (t div 256 ^ (k - 2))) = (b AND 0x007fffff :: 32 word)"
      unfolding if_distrib [of word_of_int, symmetric] c M ..
    have z: "(b AND 0x007fffff) AND 0x00800000 = 0"
      by (simp add: and.assoc)
    show ?thesis
      unfolding t_def [symmetric] targetToBitsBCH_sized [OF b mx] Let_def c' k [symmetric] S
      using z pack_eq [OF f(8)] by simp
  next
    case False
    then have lt: "m < 0x10000" by simp
    have "s \<noteq> 1" using f(7) f(3) lt by auto
    then obtain k where k: "s = Suc (Suc k)" using f(1) by (cases s) (auto simp: gr0_conv_Suc)
    have e: "t * 256 ^ 3 = (256 * m) * 256 ^ Suc k" using rel k by simp
    have b: "256 ^ k \<le> t" "t < 256 ^ Suc k"
      using sized_bounds [OF e] lt f(3) by simp_all
    have c: "(if k \<le> 2 then t * 256 ^ (2 - k) else t div 256 ^ (k - 2)) = 256 * m"
      using e by (rule mantissa_of_sized)
    have c': "(if k \<le> 2 then word_of_int (t * 256 ^ (2 - k)) else word_of_int (t div 256 ^ (k - 2))) = (word_of_int (256 * m) :: 32 word)"
      unfolding if_distrib [of word_of_int, symmetric] c ..
    note bc = bump_case [of "b AND 0x007fffff", folded m_def, OF f(3) lt]
    have S': "(word_of_nat (Suc k) :: 32 word) + 1 = drop_bit 24 b"
      using S k by simp
    show ?thesis
      unfolding t_def [symmetric] targetToBitsBCH_sized [OF b mx] Let_def c' S'
      using bc pack_eq [OF f(8)] by simp
  qed
qed


text \<open>The maximum target \<^verbatim>\<open>0x1d00ffff\<close> is in normal form and survives the round trip.\<close>

theorem compact_roundtrip_normal_witness:
  "compact_normal 0x1d00ffff \<and> targetToBitsBCH (bitsToTargetBCH 0x1d00ffff) = Inr 0x1d00ffff"
proof -
  have n: "compact_normal 0x1d00ffff"
    by (simp add: compact_normal_def)
  from compact_roundtrip_normal [OF n] n show ?thesis by simp
qed

text \<open>
  C1 as stated fails: \<^verbatim>\<open>0x04000001\<close> has bit 23 clear and size 4, decodes to 256, and
  256 encodes to \<^verbatim>\<open>0x02010000\<close>, the encoding of minimal size.
\<close>

theorem compact_roundtrip_counterexample:
  "(0x04000001 :: 32 word) AND 0x00800000 = 0 \<and>
   0 < drop_bit 24 (0x04000001 :: 32 word) \<and>
   bitsToTargetBCH 0x04000001 = 256 \<and>
   targetToBitsBCH (bitsToTargetBCH 0x04000001) = Inr 0x02010000 \<and>
   targetToBitsBCH (bitsToTargetBCH 0x04000001) \<noteq> Inr 0x04000001"
proof -
  have d: "bitsToTargetBCH 0x04000001 = 256"
    by (simp add: bitsToTargetBCH_def)
  have e: "targetToBitsBCH 256 = Inr 0x02010000"
    by (subst targetToBitsBCH_sized [of 1]) simp_all
  show ?thesis
    unfolding d e by simp
qed

text \<open>
  C10: the compact value \<^verbatim>\<open>0x00000001\<close> (size 0, mantissa 1, bit 23 clear) decodes to the
  target 0, and \<^verbatim>\<open>targetToBitsBCH\<close> panics on that result, as it does on every target
  that is not positive.
\<close>

theorem compact_zero_target_panics:
  "(0x00000001 :: 32 word) AND 0x00800000 = 0 \<and>
   (0x00000001 :: 32 word) AND 0x007fffff \<noteq> 0 \<and>
   bitsToTargetBCH 0x00000001 = 0 \<and>
   targetToBitsBCH (bitsToTargetBCH 0x00000001) = Inl (Panic ''invalid target sign'') \<and>
   (\<forall>t. t \<le> 0 \<longrightarrow> targetToBitsBCH t = Inl (Panic ''invalid target sign''))"
proof -
  have d: "bitsToTargetBCH 0x00000001 = 0"
    by (simp add: bitsToTargetBCH_def)
  have p: "targetToBitsBCH t = Inl (Panic ''invalid target sign'')" if "t \<le> 0" for t
    using that by (simp add: targetToBitsBCH_def)
  show ?thesis
    using p by (simp add: d)
qed

text \<open>The target \<open>-5\<close> is not positive and makes the encoder panic.\<close>

theorem compact_zero_target_panics_witness:
  "(- 5 :: int) \<le> 0 \<and> targetToBitsBCH (- 5) = Inl (Panic ''invalid target sign'')"
proof -
  have "\<forall>t. t \<le> 0 \<longrightarrow> targetToBitsBCH t = Inl (Panic ''invalid target sign'')"
    using compact_zero_target_panics by blast
  then show ?thesis by simp
qed

section \<open>Properties of the ASERT retarget\<close>

subsection \<open>The cubic never wraps\<close>

lemma poly_bound_nat:
  fixes n :: nat
  assumes "n \<le> 65535"
  shows "195766423245049 * n + 971821376 * (n * n) + 5127 * (n * n * n) + 2 ^ 47 \<le> 18446563080438344768"
proof -
  have 2: "n * n \<le> 65535 * 65535" using assms by (intro mult_le_mono) simp_all
  then have 3: "n * n * n \<le> 65535 * 65535 * 65535" using assms by (intro mult_le_mono) simp_all
  have "195766423245049 * n \<le> 195766423245049 * 65535" using assms by simp
  moreover have "971821376 * (n * n) \<le> 971821376 * (65535 * 65535)" using 2 by simp
  moreover have "5127 * (n * n * n) \<le> 5127 * (65535 * 65535 * 65535)" using 3 by simp
  ultimately show ?thesis by simp
qed

lemma asert_poly_of_nat:
  "asert_poly (word_of_nat n) =
     word_of_nat (195766423245049 * n + 971821376 * (n * n) + 5127 * (n * n * n) + 2 ^ 47)"
  by (simp add: asert_poly_def Let_def asertPolyA_def asertPolyB_def asertPolyC_def)

lemma unat_asert_poly:
  assumes "unat ux \<le> 65535"
  shows "unat (asert_poly ux) =
    195766423245049 * unat ux + 971821376 * (unat ux * unat ux) + 5127 * (unat ux * unat ux * unat ux) + 2 ^ 47"
proof -
  let ?e = "195766423245049 * unat ux + 971821376 * (unat ux * unat ux) + 5127 * (unat ux * unat ux * unat ux) + 2 ^ 47"
  have "?e \<le> 18446563080438344768" using assms by (rule poly_bound_nat)
  then have lt: "?e < 2 ^ 64" by simp
  have "asert_poly ux = word_of_nat ?e"
    using asert_poly_of_nat [of "unat ux"] by (simp only: of_nat_unat ucast_id)
  then have "unat (asert_poly ux) = ?e mod 2 ^ 64"
    by (simp only: unat_of_nat) simp
  also have "\<dots> = ?e" using lt by (rule mod_less)
  finally show ?thesis .
qed

lemma unat_asert_factor:
  assumes "unat ux \<le> 65535"
  shows "unat (asert_factor ux) = unat (asert_poly ux) div 2 ^ 48 + 65536"
    and "65536 \<le> unat (asert_factor ux)" and "unat (asert_factor ux) < 131072"
proof -
  have "unat (asert_poly ux) \<le> 18446563080438344768"
    unfolding unat_asert_poly [OF assms] using assms by (rule poly_bound_nat)
  then have d: "unat (asert_poly ux) div 2 ^ 48 \<le> 65535" by simp
  have u: "unat (drop_bit 48 (asert_poly ux)) = unat (asert_poly ux) div 2 ^ 48"
    by (simp add: drop_bit_eq_div unat_div)
  have "unat (asert_factor ux) = (unat (drop_bit 48 (asert_poly ux)) + 65536) mod 2 ^ 64"
    by (simp add: asert_factor_def asertRadix_def unat_word_ariths)
  also have "\<dots> = unat (asert_poly ux) div 2 ^ 48 + 65536"
    unfolding u using d by simp
  finally show 1: "unat (asert_factor ux) = unat (asert_poly ux) div 2 ^ 48 + 65536" .
  show "65536 \<le> unat (asert_factor ux)" unfolding 1 by simp
  show "unat (asert_factor ux) < 131072" unfolding 1 using d by simp
qed

subsection \<open>The exponent and the shifts as exact integers\<close>

lemma sint_in_int64: "in_int64 (sint (w :: 64 word))"
  using sint_greater_eq [of w] sint_less [of w] by (simp add: in_int64_def)

lemma sint_word_of_int64: "in_int64 x \<Longrightarrow> sint (word_of_int x :: 64 word) = x"
  by (simp add: in_int64_def sint_sbintrunc' signed_take_bit_int_eq_self)

lemma sint_sub64: "in_int64 (sint a - sint b) \<Longrightarrow> sint (a - b :: 64 word) = sint a - sint b"
  by (simp add: in_int64_def sint_word_ariths signed_take_bit_int_eq_self)

lemma sint_add64: "in_int64 (sint a + sint b) \<Longrightarrow> sint (a + b :: 64 word) = sint a + sint b"
  by (simp add: in_int64_def sint_word_ariths signed_take_bit_int_eq_self)

lemma sint_mult64: "in_int64 (sint a * sint b) \<Longrightarrow> sint (a * b :: 64 word) = sint a * sint b"
  by (simp add: in_int64_def sint_word_ariths signed_take_bit_int_eq_self)

lemma sdiv_pos:
  fixes a d :: int
  assumes "0 < d"
  shows "a sdiv d = (if 0 \<le> a then a div d else - ((- a) div d))"
  using assms by (simp add: signed_divide_int_def sgn_if)

lemma div_pos_le_self:
  fixes a d :: int
  assumes "0 \<le> a" "0 < d"
  shows "0 \<le> a div d" "a div d \<le> a"
proof -
  show "0 \<le> a div d" using assms by (simp add: pos_imp_zdiv_nonneg_iff)
  have "a div d \<le> a div 1" using assms by (intro zdiv_mono2) simp_all
  then show "a div d \<le> a" by simp
qed

lemma sdiv_pos_in_int64:
  assumes "in_int64 a" "0 < d"
  shows "in_int64 (a sdiv d)"
proof (cases "0 \<le> a")
  case True
  then show ?thesis
    using assms div_pos_le_self [of a d] by (simp add: sdiv_pos in_int64_def)
next
  case False
  then have "0 \<le> - a" by simp
  from div_pos_le_self [OF this assms(2)] show ?thesis
    using assms False by (simp add: sdiv_pos in_int64_def)
qed

lemma sint_int64_div:
  assumes "0 < sint b"
  shows "sint (int64_div a b) = sint a sdiv sint b"
proof -
  have "in_int64 (sint a sdiv sint b)"
    using sint_in_int64 assms by (rule sdiv_pos_in_int64)
  then show ?thesis unfolding int64_div_def by (rule sint_word_of_int64)
qed

lemma sint_asert_exponent:
  assumes "asert_no_overflow ah apt eh et"
  shows "sint (asert_exponent ah apt eh et) = (asert_offset ah apt eh et * 65536) sdiv 172800"
proof -
  from assms have a: "in_int64 (sint et - sint apt)" "in_int64 (sint eh - sint ah)"
    "in_int64 (sint eh - sint ah + 1)" "in_int64 (600 * (sint eh - sint ah + 1))"
    "in_int64 (asert_offset ah apt eh et)" "in_int64 (asert_offset ah apt eh et * 65536)"
    by (simp_all add: asert_no_overflow_def)
  have c: "sint (600 :: 64 word) = 600" "sint (1 :: 64 word) = 1" "sint (65536 :: 64 word) = 65536"
    "sint (172800 :: 64 word) = 172800" by simp_all
  have 1: "sint (et - apt) = sint et - sint apt" using a(1) by (rule sint_sub64)
  have 2: "sint (eh - ah) = sint eh - sint ah" using a(2) by (rule sint_sub64)
  have 3: "sint (eh - ah + 1) = sint eh - sint ah + 1"
    using a(3) sint_add64 [of "eh - ah" 1] by (simp only: 2 c)
  have 4: "sint (600 * (eh - ah + 1)) = 600 * (sint eh - sint ah + 1)"
    using a(4) sint_mult64 [of 600 "eh - ah + 1"] by (simp only: 3 c)
  have 5: "sint ((et - apt) - 600 * (eh - ah + 1)) = asert_offset ah apt eh et"
    using a(5) sint_sub64 [of "et - apt" "600 * (eh - ah + 1)"]
    by (simp only: 1 4 asert_offset_def)
  have 6: "sint (((et - apt) - 600 * (eh - ah + 1)) * 65536) = asert_offset ah apt eh et * 65536"
    using a(6) sint_mult64 [of "(et - apt) - 600 * (eh - ah + 1)" 65536] by (simp only: 5 c)
  have "sint (int64_div (((et - apt) - 600 * (eh - ah + 1)) * 65536) 172800)
      = sint (((et - apt) - 600 * (eh - ah + 1)) * 65536) sdiv sint (172800 :: 64 word)"
    by (rule sint_int64_div) simp
  then show ?thesis
    unfolding asert_exponent_def Let_def asertIdealBlockTime_def asertRadix_def asertHalflife_def
    by (simp only: 6 c push_bit_of_1) simp
qed


lemma sint_numShifts: "sint (signed_drop_bit 16 (e :: 64 word)) = sint e div 65536"
  by (simp add: sint_signed_drop_bit_eq drop_bit_eq_div)

lemma frac_word:
  "(e :: 64 word) - signed_drop_bit 16 e * asertRadix = word_of_int (sint e mod 65536)"
proof -
  have "signed_drop_bit 16 e = word_of_int (sint (signed_drop_bit 16 e))" by simp
  then have "signed_drop_bit 16 e = word_of_int (sint e div 65536)"
    by (simp only: sint_numShifts)
  moreover have "e = word_of_int (sint e)" by simp
  moreover have "asertRadix = word_of_int 65536" by (simp add: asertRadix_def)
  ultimately have "e - signed_drop_bit 16 e * asertRadix
      = word_of_int (sint e) - word_of_int (sint e div 65536) * word_of_int 65536"
    by (simp only:)
  also have "\<dots> = word_of_int (sint e - sint e div 65536 * 65536)"
    by (simp only: of_int_diff of_int_mult)
  also have "sint e - sint e div 65536 * 65536 = sint e mod 65536"
    by (simp add: minus_div_mult_eq_mod)
  finally show ?thesis .
qed

lemma unat_frac: "unat (word_of_int (x mod 65536) :: 64 word) = nat (x mod 65536)"
proof -
  have "0 \<le> x mod 65536" "x mod 65536 < 65536" by simp_all
  then have "(x mod 65536) mod 2 ^ 64 = x mod 65536" by (intro mod_pos_pos_trivial) simp_all
  then show ?thesis by (simp add: unat_eq_nat_uint uint_word_of_int)
qed

text \<open>The value handed to the cubic in \<^verbatim>\<open>ASERTNextTarget\<close> is always below \<open>2\<^sup>1\<^sup>6\<close>.\<close>

lemma asert_ux_range: "(e :: 64 word) - signed_drop_bit 16 e * asertRadix < 65536"
proof -
  have "nat (sint e mod 65536) < 65536" by simp
  then have "unat (word_of_int (sint e mod 65536) :: 64 word) < unat (65536 :: 64 word)"
    by (simp only: unat_frac) simp
  then show ?thesis by (simp only: frac_word word_less_nat_alt)
qed

lemma unat_neg_shift:
  assumes "sint (w :: 64 word) < 0"
  shows "unat (- w) = nat (- sint w)"
proof -
  have "- w = word_of_int (- sint w)" by simp
  moreover have "(- sint w) mod 2 ^ 64 = - sint w"
    using assms sint_greater_eq [of w] by (intro mod_pos_pos_trivial) simp_all
  ultimately show ?thesis by (simp only: unat_eq_nat_uint uint_word_of_int) simp
qed

lemma unat_pos_shift:
  assumes "0 \<le> sint (w :: 64 word)"
  shows "unat w = nat (sint w)"
proof -
  have "w = word_of_int (sint w)" by simp
  moreover have "sint w mod 2 ^ 64 = sint w"
    using assms sint_less [of w] by (intro mod_pos_pos_trivial) simp_all
  ultimately have "uint w = sint w" using uint_word_of_int [of "sint w", where 'a = 64] by simp
  then show ?thesis by (simp only: unat_eq_nat_uint)
qed

lemma shift_then_drop16:
  "drop_bit 16 (if s < 0 then drop_bit (nat (- s)) x else if 0 < s then push_bit (nat s) x else x)
     = shift_int x (s - 16)" for x s :: int
proof -
  consider "s < 0" | "0 \<le> s" "s < 16" | "16 \<le> s" by linarith
  then show ?thesis
  proof cases
    case 1
    then have "nat (- (s - 16)) = nat (- s) + 16" by simp
    then show ?thesis using 1
      by (simp add: shift_int_def drop_bit_eq_div power_add zdiv_zmult2_eq)
  next
    case 2
    then have e: "16 = nat s + nat (- (s - 16))" by simp
    have "x * 2 ^ nat s div 2 ^ 16 = x div 2 ^ nat (- (s - 16))"
      by (subst e, subst power_add) simp
    then show ?thesis using 2
      by (cases "s = 0") (simp_all add: shift_int_def drop_bit_eq_div push_bit_eq_mult)
  next
    case 3
    then have e: "nat s = nat (s - 16) + 16" by simp
    have "x * 2 ^ nat s div 2 ^ 16 = x * 2 ^ nat (s - 16)"
      by (subst e, subst power_add) simp
    then show ?thesis using 3
      by (simp add: shift_int_def drop_bit_eq_div push_bit_eq_mult)
  qed
qed

lemma asert_unclamped_int:
  "asert_unclamped ah apt tgt eh et =
     (let e = sint (asert_exponent ah apt eh et)
      in shift_int (tgt * uint (asert_factor (word_of_int (e mod 65536)))) (e div 65536 - 16))"
proof -
  define e where "e = asert_exponent ah apt eh et"
  define ns where "ns = signed_drop_bit 16 e"
  have ns: "sint ns = sint e div 65536" unfolding ns_def by (rule sint_numShifts)
  have sh: "(if sint ns < 0 then drop_bit (unat (- ns)) x
             else if 0 < sint ns then push_bit (unat ns) x else x)
          = (if sint ns < 0 then drop_bit (nat (- sint ns)) x
             else if 0 < sint ns then push_bit (nat (sint ns)) x else x)" for x :: int
    using unat_neg_shift [of ns] unat_pos_shift [of ns] by auto
  define X where "X = tgt * uint (asert_factor (word_of_int (sint e mod 65536)))"
  have "asert_unclamped ah apt tgt eh et =
      drop_bit 16 (if sint ns < 0 then drop_bit (unat (- ns)) X
                   else if 0 < sint ns then push_bit (unat ns) X else X)"
    unfolding asert_unclamped_def Let_def e_def [symmetric] frac_word ns_def [symmetric] X_def ..
  also have "\<dots> = drop_bit 16 (if sint ns < 0 then drop_bit (nat (- sint ns)) X
                   else if 0 < sint ns then push_bit (nat (sint ns)) X else X)"
    by (simp only: sh)
  also have "\<dots> = shift_int X (sint ns - 16)" by (rule shift_then_drop16)
  finally show ?thesis unfolding ns Let_def X_def e_def .
qed

subsection \<open>Shifts and truncating division\<close>

lemma shift_int_mono:
  assumes "x \<le> y"
  shows "shift_int x j \<le> shift_int y j"
  using assms by (simp add: shift_int_def zdiv_mono1 mult_right_mono)

lemma shift_int_double: "shift_int (2 * x) j = shift_int x (j + 1)"
proof -
  consider "j < - 1" | "j = - 1" | "0 \<le> j" by linarith
  then show ?thesis
  proof cases
    case 1
    then have "nat (- j) = Suc (nat (- (j + 1)))" by simp
    then have "(2::int) ^ nat (- j) = 2 * 2 ^ nat (- (j + 1))" by simp
    then show ?thesis using 1 by (simp add: shift_int_def)
  next
    case 2
    then show ?thesis by (simp add: shift_int_def)
  next
    case 3
    then have "nat (j + 1) = Suc (nat j)" by simp
    then show ?thesis using 3 by (simp add: shift_int_def)
  qed
qed

lemma shift_int_step:
  assumes "0 \<le> x"
  shows "shift_int x j \<le> shift_int x (j + 1)"
proof -
  have "x \<le> 2 * x" using assms by simp
  then have "shift_int x j \<le> shift_int (2 * x) j" by (rule shift_int_mono)
  then show ?thesis by (simp only: shift_int_double)
qed

lemma shift_int_mono_amount:
  assumes "0 \<le> x" and "j \<le> k"
  shows "shift_int x j \<le> shift_int x k"
proof -
  have "shift_int x j \<le> shift_int x (j + int n)" for n
  proof (induction n)
    case 0
    show ?case by simp
  next
    case (Suc n)
    have "shift_int x (j + int n) \<le> shift_int x (j + int n + 1)"
      using assms(1) by (rule shift_int_step)
    moreover have "j + int (Suc n) = j + int n + 1" by simp
    ultimately show ?case using Suc by (simp only:)
  qed
  from this [of "nat (k - j)"] assms(2) show ?thesis by simp
qed

lemma shift_int_next:
  "2 * shift_int x j \<le> shift_int x (j + 1) \<and> shift_int x (j + 1) \<le> 2 * shift_int x j + 1 \<and>
   (0 \<le> j \<longrightarrow> shift_int x (j + 1) = 2 * shift_int x j)"
proof (cases "j < 0")
  case True
  define n where "n = nat (- (j + 1))"
  have n: "nat (- j) = Suc n" using True by (simp add: n_def)
  define q where "q = x div 2 ^ n"
  have "x div (2 ^ n * 2) = x div 2 ^ n div 2" by (rule zdiv_zmult2_eq) simp
  moreover have "(2::int) ^ Suc n = 2 ^ n * 2" by simp
  ultimately have "x div 2 ^ Suc n = q div 2" by (simp only: q_def)
  then have a: "shift_int x j = q div 2"
    using True by (simp only: shift_int_def n if_True)
  have b: "shift_int x (j + 1) = q"
  proof (cases "j = - 1")
    case True
    then show ?thesis by (simp add: shift_int_def q_def n_def)
  next
    case False
    with True have "j + 1 < 0" by simp
    then show ?thesis by (simp add: shift_int_def q_def n_def)
  qed
  have "2 * (q div 2) \<le> q" "q \<le> 2 * (q div 2) + 1" by presburger+
  then show ?thesis using True unfolding a b by simp
next
  case False
  then have "nat (j + 1) = Suc (nat j)" by simp
  then show ?thesis using False by (simp add: shift_int_def)
qed

lemma sdiv_mono:
  fixes a b d :: int
  assumes "0 < d" and "a \<le> b"
  shows "a sdiv d \<le> b sdiv d"
proof -
  consider "0 \<le> a" | "a < 0" "0 \<le> b" | "b < 0" using assms(2) by linarith
  then show ?thesis
  proof cases
    case 1
    then show ?thesis using assms by (simp add: sdiv_pos zdiv_mono1)
  next
    case 2
    have "0 \<le> (- a) div d" "0 \<le> b div d"
      using 2 assms(1) by (simp_all add: pos_imp_zdiv_nonneg_iff)
    then show ?thesis using 2 assms(1) by (simp add: sdiv_pos)
  next
    case 3
    then have "(- b) div d \<le> (- a) div d" using assms by (intro zdiv_mono1) simp_all
    then show ?thesis using 3 assms by (simp add: sdiv_pos)
  qed
qed

lemma sdiv_add_multiple:
  fixes a d k :: int
  assumes d: "0 < d" and k: "0 \<le> k" and c: "0 \<le> a \<or> a + k * d \<le> 0 \<or> d dvd a"
  shows "(a + k * d) sdiv d = a sdiv d + k"
proof -
  consider "0 \<le> a" | "a < 0" "a + k * d \<le> 0" | "a < 0" "d dvd a" using c by linarith
  then show ?thesis
  proof cases
    case 1
    then have "0 \<le> a + k * d" using d k by simp
    then show ?thesis using 1 d by (simp add: sdiv_pos)
  next
    case 2
    have "(- a + (- k) * d) div d = - k + (- a) div d"
      using d by (intro div_mult_self1) simp
    then have e: "(- a - k * d) div d = (- a) div d - k" by simp
    show ?thesis
    proof (cases "a + k * d = 0")
      case True
      then have "- a = k * d" by simp
      then have "(- a) div d = k" using d by simp
      then show ?thesis using True 2 d by (simp add: sdiv_pos)
    next
      case False
      then have "a + k * d < 0" using 2 by simp
      then show ?thesis using 2 d e by (simp add: sdiv_pos)
    qed
  next
    case 3
    then obtain q where q: "a = d * q" by (auto simp: dvd_def)
    have s: "(d * r) sdiv d = r" for r
    proof (cases "0 \<le> r")
      case True
      then show ?thesis using d by (simp add: sdiv_pos)
    next
      case False
      then have n: "\<not> 0 \<le> d * r" using d by (simp add: zero_le_mult_iff)
      have "- (d * r) = d * (- r)" by simp
      then have "(- (d * r)) div d = - r" using d by (simp only: nonzero_mult_div_cancel_left)
      then show ?thesis using n d by (simp add: sdiv_pos)
    qed
    have "a + k * d = d * (q + k)" by (simp add: q algebra_simps)
    then show ?thesis by (simp only: s q)
  qed
qed

subsection \<open>The exponent and the factor in terms of the signed inputs\<close>

lemma wrap64_signed_take_bit: "wrap64 x = signed_take_bit 63 x"
proof -
  have "signed_take_bit 63 x = take_bit (Suc 63) (x + 2 ^ 63) - 2 ^ 63"
    by (rule signed_take_bit_eq_take_bit_shift)
  also have "take_bit (Suc 63) (x + 2 ^ 63) = (x + 2 ^ 63) mod 2 ^ Suc 63"
    by (rule take_bit_eq_mod)
  finally show ?thesis by (simp add: wrap64_def)
qed

lemma wrap64_id: "in_int64 x \<Longrightarrow> wrap64 x = x"
  by (simp add: wrap64_signed_take_bit in_int64_def signed_take_bit_int_eq_self)

lemma sint_sub_wrap: "sint (a - b :: 64 word) = wrap64 (sint a - sint b)"
  by (simp add: wrap64_signed_take_bit sint_word_ariths)

lemma sint_add_wrap: "sint (a + b :: 64 word) = wrap64 (sint a + sint b)"
  by (simp add: wrap64_signed_take_bit sint_word_ariths)

lemma sint_mult_wrap: "sint (a * b :: 64 word) = wrap64 (sint a * sint b)"
  by (simp add: wrap64_signed_take_bit sint_word_ariths)

lemma sint_asert_exponent_wrap:
  "sint (asert_exponent ah apt eh et) =
     wrap64 (wrap64 (wrap64 (sint et - sint apt)
                     - wrap64 (600 * wrap64 (wrap64 (sint eh - sint ah) + 1))) * 65536) sdiv 172800"
proof -
  have c: "sint (600 :: 64 word) = 600" "sint (1 :: 64 word) = 1" "sint (65536 :: 64 word) = 65536"
    "sint (172800 :: 64 word) = 172800" by simp_all
  have "sint (int64_div (((et - apt) - 600 * (eh - ah + 1)) * 65536) 172800)
      = sint (((et - apt) - 600 * (eh - ah + 1)) * 65536) sdiv sint (172800 :: 64 word)"
    by (rule sint_int64_div) simp
  also have "\<dots> = wrap64 (wrap64 (wrap64 (sint et - sint apt)
                     - wrap64 (600 * wrap64 (wrap64 (sint eh - sint ah) + 1))) * 65536) sdiv 172800"
    by (simp only: sint_sub_wrap sint_add_wrap sint_mult_wrap c)
  finally show ?thesis
    unfolding asert_exponent_def Let_def asertIdealBlockTime_def asertRadix_def asertHalflife_def
    by (simp only: push_bit_of_1) simp
qed

lemma uint_frac_factor:
  "uint (asert_factor (word_of_int (e mod 65536))) =
     (195766423245049 * (e mod 65536) + 971821376 * (e mod 65536) ^ 2
        + 5127 * (e mod 65536) ^ 3 + 2 ^ 47) div 2 ^ 48 + 65536"
proof -
  define r where "r = e mod 65536"
  define n where "n = nat r"
  have r: "0 \<le> r" "r < 65536" by (simp_all add: r_def)
  have nr: "int n = r" using r by (simp add: n_def)
  have u: "unat (word_of_int r :: 64 word) = n" unfolding r_def n_def by (rule unat_frac)
  have le: "unat (word_of_int r :: 64 word) \<le> 65535" unfolding u using r by (simp add: n_def)
  have "unat (asert_factor (word_of_int r)) =
      (195766423245049 * n + 971821376 * (n * n) + 5127 * (n * n * n) + 2 ^ 47) div 2 ^ 48 + 65536"
    unfolding unat_asert_factor(1) [OF le] unat_asert_poly [OF le] u ..
  then have "int (unat (asert_factor (word_of_int r))) =
      int ((195766423245049 * n + 971821376 * (n * n) + 5127 * (n * n * n) + 2 ^ 47) div 2 ^ 48 + 65536)"
    by (simp only:)
  also have "\<dots> = (195766423245049 * int n + 971821376 * (int n * int n)
        + 5127 * (int n * int n * int n) + 2 ^ 47) div 2 ^ 48 + 65536"
    by (simp add: zdiv_int)
  finally have "uint (asert_factor (word_of_int r)) =
      (195766423245049 * r + 971821376 * (r * r) + 5127 * (r * r * r) + 2 ^ 47) div 2 ^ 48 + 65536"
    unfolding nr by simp
  then show ?thesis
    unfolding r_def by (simp add: power2_eq_square power3_eq_cube)
qed

subsection \<open>Evaluation at concrete inputs\<close>

lemma exponent_at_anchor: "asert_exponent 1 0 1 600 = 0"
  by (simp add: asert_exponent_def asertIdealBlockTime_def asertRadix_def asertHalflife_def int64_div_def)

lemma exponent_wrapped: "asert_exponent 1 0 1 281474976192856 = - 196608"
  by (simp add: asert_exponent_def asertIdealBlockTime_def asertRadix_def asertHalflife_def int64_div_def
      signed_divide_int_def)

lemma exponent_backwards: "asert_exponent 1 100 0 (- 50) = - 56"
  by (simp add: asert_exponent_def asertIdealBlockTime_def asertRadix_def asertHalflife_def int64_div_def
      signed_divide_int_def)

lemma factor_0: "asert_factor 0 = 65536"
  by (simp add: asert_factor_def asert_poly_def asertRadix_def asertPolyA_def asertPolyB_def asertPolyC_def drop_bit_eq_div)

lemma factor_65480: "asert_factor 65480 = 130995"
  by (simp add: asert_factor_def asert_poly_def asertRadix_def asertPolyA_def asertPolyB_def asertPolyC_def drop_bit_eq_div)

lemma unclamped_at_anchor: "asert_unclamped 1 0 8 1 600 = 8"
  by (simp add: asert_unclamped_int exponent_at_anchor factor_0 shift_int_def)

lemma unclamped_wrapped: "asert_unclamped 1 0 8 1 281474976192856 = 1"
  by (simp add: asert_unclamped_int exponent_wrapped factor_0 shift_int_def)

lemma unclamped_backwards: "asert_unclamped 1 100 8 0 (- 50) = 7"
  by (simp add: asert_unclamped_int exponent_backwards factor_65480 shift_int_def)

text \<open>
  C4: for every \<open>ux\<close> below \<open>2\<^sup>1\<^sup>6\<close> the exact value of the cubic is below \<open>2\<^sup>6\<^sup>4\<close>, the
  \<^verbatim>\<open>uint64\<close> computation of \<^verbatim>\<open>poly\<close> equals it, and \<^verbatim>\<open>factor\<close> lies in \<open>[2\<^sup>1\<^sup>6, 2\<^sup>1\<^sup>7)\<close>.
\<close>

theorem asert_poly_no_wrap:
  assumes "ux < 65536"
  shows "195766423245049 * unat ux + 971821376 * (unat ux) ^ 2 + 5127 * (unat ux) ^ 3 + 2 ^ 47 < 2 ^ 64 \<and>
         unat (asert_poly ux) =
           195766423245049 * unat ux + 971821376 * (unat ux) ^ 2 + 5127 * (unat ux) ^ 3 + 2 ^ 47 \<and>
         unat (asert_factor ux) = unat (asert_poly ux) div 2 ^ 48 + 2 ^ 16 \<and>
         2 ^ 16 \<le> unat (asert_factor ux) \<and> unat (asert_factor ux) < 2 ^ 17"
proof -
  have n: "unat ux \<le> 65535" using assms by (simp add: word_less_nat_alt)
  have p: "(unat ux) ^ 2 = unat ux * unat ux" "(unat ux) ^ 3 = unat ux * unat ux * unat ux"
    by (simp_all add: power2_eq_square power3_eq_cube)
  have "195766423245049 * unat ux + 971821376 * (unat ux * unat ux)
          + 5127 * (unat ux * unat ux * unat ux) + 2 ^ 47 \<le> 18446563080438344768"
    using n by (rule poly_bound_nat)
  then have 1: "195766423245049 * unat ux + 971821376 * (unat ux * unat ux)
          + 5127 * (unat ux * unat ux * unat ux) + 2 ^ 47 < 2 ^ 64" by simp
  note 2 = unat_asert_poly [OF n]
  note 3 = unat_asert_factor [OF n]
  show ?thesis
    unfolding p using 1 2 3 by simp
qed

text \<open>At the largest argument, \<open>ux = 65535\<close>, the cubic is 18446563080438344768 and the factor 131071.\<close>

theorem asert_poly_no_wrap_witness:
  "(65535 :: 64 word) < 65536 \<and> unat (asert_poly 65535) = 18446563080438344768 \<and>
   unat (asert_factor 65535) = 131071"
  using asert_poly_no_wrap [of 65535] by simp

text \<open>
  C5: when the three preconditions hold, the function returns a target between 1 and
  \<^verbatim>\<open>maxTarget\<close>: 1 when the value before the clamp is not positive, \<^verbatim>\<open>maxTarget\<close> when it
  exceeds \<^verbatim>\<open>maxTarget\<close>, and that value itself otherwise.
\<close>

theorem asert_result_in_range:
  assumes "0 < sint anchorHeight" and "0 < anchorTarget" and "0 < maxTarget"
  shows "\<exists>r. ASERTNextTarget anchorHeight anchorParentTime anchorTarget evalHeight evalTime maxTarget = Inr r \<and>
           1 \<le> r \<and> r \<le> maxTarget \<and>
           (let next = asert_unclamped anchorHeight anchorParentTime anchorTarget evalHeight evalTime
            in (next \<le> 0 \<longrightarrow> r = 1) \<and>
               (maxTarget < next \<longrightarrow> r = maxTarget) \<and>
               (0 < next \<and> next \<le> maxTarget \<longrightarrow> r = next))"
  using assms by (simp add: ASERTNextTarget_def asert_clamp_def Let_def)

text \<open>A value above \<^verbatim>\<open>maxTarget\<close> is cut to it, and a wrapped exponent still gives a target of at least 1.\<close>

theorem asert_result_in_range_witness:
  "0 < sint (1 :: 64 word) \<and> (0 :: int) < 8 \<and> (0 :: int) < 5 \<and>
   ASERTNextTarget 1 0 8 1 600 5 = Inr 5 \<and> ASERTNextTarget 1 0 8 1 281474976192856 5 = Inr 1"
  using asert_result_in_range [of 1 8 5 0 1 600] asert_result_in_range [of 1 8 5 0 1 281474976192856]
  by (simp add: unclamped_at_anchor unclamped_wrapped)

text \<open>
  C6: the function panics exactly when \<^verbatim>\<open>anchorHeight\<close>, \<^verbatim>\<open>anchorTarget\<close> or \<^verbatim>\<open>maxTarget\<close>
  is not positive.  On every other input, whatever the timestamps and the evaluation height,
  it returns the clamped value computed from the inputs as given: the result is stated on the
  signed values of the four \<^verbatim>\<open>int64\<close> arguments themselves, each operation wrapped to 64 bits,
  and without the wrapping where nothing overflows.
\<close>

theorem asert_panics_iff:
  "((\<exists>p. ASERTNextTarget anchorHeight anchorParentTime anchorTarget evalHeight evalTime maxTarget = Inl p)
      \<longleftrightarrow> sint anchorHeight \<le> 0 \<or> anchorTarget \<le> 0 \<or> maxTarget \<le> 0) \<and>
   (\<not> (sint anchorHeight \<le> 0 \<or> anchorTarget \<le> 0 \<or> maxTarget \<le> 0) \<longrightarrow>
      ASERTNextTarget anchorHeight anchorParentTime anchorTarget evalHeight evalTime maxTarget =
        Inr (asert_clamp
               (asert_unclamped anchorHeight anchorParentTime anchorTarget evalHeight evalTime)
               maxTarget)) \<and>
   (\<not> (sint anchorHeight \<le> 0 \<or> anchorTarget \<le> 0 \<or> maxTarget \<le> 0) \<longrightarrow>
      (let timeDelta = wrap64 (sint evalTime - sint anchorParentTime);
           heightDelta = wrap64 (sint evalHeight - sint anchorHeight);
           numBlocks = wrap64 (heightDelta + 1);
           exponent = wrap64 (wrap64 (timeDelta - wrap64 (600 * numBlocks)) * 65536) sdiv 172800;
           numShifts = exponent div 65536;
           frac = exponent mod 65536;
           factor = (195766423245049 * frac + 971821376 * frac ^ 2 + 5127 * frac ^ 3 + 2 ^ 47) div 2 ^ 48
                    + 65536;
           next = shift_int (anchorTarget * factor) (numShifts - 16)
       in ASERTNextTarget anchorHeight anchorParentTime anchorTarget evalHeight evalTime maxTarget =
            Inr (if next \<le> 0 then 1 else if maxTarget < next then maxTarget else next))) \<and>
   (\<not> (sint anchorHeight \<le> 0 \<or> anchorTarget \<le> 0 \<or> maxTarget \<le> 0) \<and>
    asert_no_overflow anchorHeight anchorParentTime evalHeight evalTime \<longrightarrow>
      (let timeDelta = sint evalTime - sint anchorParentTime;
           heightDelta = sint evalHeight - sint anchorHeight;
           numBlocks = heightDelta + 1;
           exponent = ((timeDelta - 600 * numBlocks) * 65536) sdiv 172800;
           numShifts = exponent div 65536;
           frac = exponent mod 65536;
           factor = (195766423245049 * frac + 971821376 * frac ^ 2 + 5127 * frac ^ 3 + 2 ^ 47) div 2 ^ 48
                    + 65536;
           next = shift_int (anchorTarget * factor) (numShifts - 16)
       in ASERTNextTarget anchorHeight anchorParentTime anchorTarget evalHeight evalTime maxTarget =
            Inr (if next \<le> 0 then 1 else if maxTarget < next then maxTarget else next)))"
proof (intro conjI impI)
  show "(\<exists>p. ASERTNextTarget anchorHeight anchorParentTime anchorTarget evalHeight evalTime maxTarget = Inl p)
      \<longleftrightarrow> sint anchorHeight \<le> 0 \<or> anchorTarget \<le> 0 \<or> maxTarget \<le> 0"
    by (simp add: ASERTNextTarget_def)
next
  assume "\<not> (sint anchorHeight \<le> 0 \<or> anchorTarget \<le> 0 \<or> maxTarget \<le> 0)"
  then show "ASERTNextTarget anchorHeight anchorParentTime anchorTarget evalHeight evalTime maxTarget =
        Inr (asert_clamp
               (asert_unclamped anchorHeight anchorParentTime anchorTarget evalHeight evalTime)
               maxTarget)"
    by (simp add: ASERTNextTarget_def)
next
  assume g: "\<not> (sint anchorHeight \<le> 0 \<or> anchorTarget \<le> 0 \<or> maxTarget \<le> 0)"
  then have r: "ASERTNextTarget anchorHeight anchorParentTime anchorTarget evalHeight evalTime maxTarget =
        Inr (asert_clamp
               (asert_unclamped anchorHeight anchorParentTime anchorTarget evalHeight evalTime)
               maxTarget)"
    by (simp add: ASERTNextTarget_def)
  show "let timeDelta = wrap64 (sint evalTime - sint anchorParentTime);
           heightDelta = wrap64 (sint evalHeight - sint anchorHeight);
           numBlocks = wrap64 (heightDelta + 1);
           exponent = wrap64 (wrap64 (timeDelta - wrap64 (600 * numBlocks)) * 65536) sdiv 172800;
           numShifts = exponent div 65536;
           frac = exponent mod 65536;
           factor = (195766423245049 * frac + 971821376 * frac ^ 2 + 5127 * frac ^ 3 + 2 ^ 47) div 2 ^ 48
                    + 65536;
           next = shift_int (anchorTarget * factor) (numShifts - 16)
       in ASERTNextTarget anchorHeight anchorParentTime anchorTarget evalHeight evalTime maxTarget =
            Inr (if next \<le> 0 then 1 else if maxTarget < next then maxTarget else next)"
    unfolding r asert_unclamped_int Let_def uint_frac_factor sint_asert_exponent_wrap asert_clamp_def ..
next
  assume a: "\<not> (sint anchorHeight \<le> 0 \<or> anchorTarget \<le> 0 \<or> maxTarget \<le> 0) \<and>
    asert_no_overflow anchorHeight anchorParentTime evalHeight evalTime"
  then have r: "ASERTNextTarget anchorHeight anchorParentTime anchorTarget evalHeight evalTime maxTarget =
        Inr (asert_clamp
               (asert_unclamped anchorHeight anchorParentTime anchorTarget evalHeight evalTime)
               maxTarget)"
    by (simp add: ASERTNextTarget_def)
  from a have no: "asert_no_overflow anchorHeight anchorParentTime evalHeight evalTime" by simp
  show "let timeDelta = sint evalTime - sint anchorParentTime;
           heightDelta = sint evalHeight - sint anchorHeight;
           numBlocks = heightDelta + 1;
           exponent = ((timeDelta - 600 * numBlocks) * 65536) sdiv 172800;
           numShifts = exponent div 65536;
           frac = exponent mod 65536;
           factor = (195766423245049 * frac + 971821376 * frac ^ 2 + 5127 * frac ^ 3 + 2 ^ 47) div 2 ^ 48
                    + 65536;
           next = shift_int (anchorTarget * factor) (numShifts - 16)
       in ASERTNextTarget anchorHeight anchorParentTime anchorTarget evalHeight evalTime maxTarget =
            Inr (if next \<le> 0 then 1 else if maxTarget < next then maxTarget else next)"
    unfolding r asert_unclamped_int Let_def uint_frac_factor sint_asert_exponent [OF no]
      asert_offset_def asert_clamp_def ..
qed

text \<open>
  An evaluation block below the anchor with a negative timestamp returns 999412 for the anchor
  target 1000000; an evaluation time whose offset wraps returns 125000; the anchor height 0
  panics.
\<close>

theorem asert_panics_iff_witness:
  "\<not> (sint (1 :: 64 word) \<le> 0 \<or> (1000000 :: int) \<le> 0 \<or> (2000000 :: int) \<le> 0) \<and>
   asert_no_overflow 1 100 0 (- 50) \<and>
   ASERTNextTarget 1 100 1000000 0 (- 50) 2000000 = Inr 999412 \<and>
   ASERTNextTarget 1 0 1000000 1 281474976192856 2000000 = Inr 125000 \<and>
   (\<exists>p. ASERTNextTarget 0 100 1000000 0 (- 50) 2000000 = Inl p)"
proof -
  have h: "\<not> (sint (1 :: 64 word) \<le> 0 \<or> (1000000 :: int) \<le> 0 \<or> (2000000 :: int) \<le> 0) \<and>
      asert_no_overflow 1 100 0 (- 50)"
    by (simp add: asert_no_overflow_def in_int64_def asert_offset_def)
  note c = asert_panics_iff [of 1 100 1000000 0 "- 50" 2000000,
      THEN conjunct2, THEN conjunct2, THEN conjunct2, THEN mp, OF h]
  from c have "ASERTNextTarget 1 100 1000000 0 (- 50) 2000000 = Inr 999412"
    by (simp add: Let_def shift_int_def signed_divide_int_def)
  moreover have "ASERTNextTarget 1 0 1000000 1 281474976192856 2000000 = Inr 125000"
  proof -
    have g: "\<not> (sint (1 :: 64 word) \<le> 0 \<or> (1000000 :: int) \<le> 0 \<or> (2000000 :: int) \<le> 0)"
      by simp
    note w = asert_panics_iff [of 1 0 1000000 1 281474976192856 2000000,
        THEN conjunct2, THEN conjunct2, THEN conjunct1, THEN mp, OF g]
    have i: "in_int64 281474976192856" "in_int64 0" "in_int64 1" "in_int64 600"
      "in_int64 281474976192256"
      by (simp_all add: in_int64_def)
    have p: "wrap64 18446744039735689216 = - 33973862400"
      by (simp add: wrap64_def)
    have e: "wrap64 (wrap64 (wrap64 (sint (281474976192856 :: 64 word) - sint (0 :: 64 word))
                - wrap64 (600 * wrap64 (wrap64 (sint (1 :: 64 word) - sint (1 :: 64 word)) + 1))) * 65536)
             sdiv 172800 = - 196608"
      by (simp add: wrap64_id i p signed_divide_int_def)
    from w show ?thesis
      unfolding Let_def e by (simp add: shift_int_def)
  qed
  moreover from asert_panics_iff [of 0 100 1000000 0 "- 50" 2000000, THEN conjunct1]
  have "\<exists>p. ASERTNextTarget 0 100 1000000 0 (- 50) 2000000 = Inl p"
    by simp
  ultimately show ?thesis using h by simp
qed

subsection \<open>Monotonicity in the evaluation time\<close>

lemma asert_factor_mono:
  assumes "unat x \<le> unat y" and "unat y \<le> 65535"
  shows "unat (asert_factor x) \<le> unat (asert_factor y)"
proof -
  have x: "unat x \<le> 65535" using assms by simp
  have 2: "unat x * unat x \<le> unat y * unat y" using assms(1) by (intro mult_le_mono)
  then have 3: "unat x * unat x * unat x \<le> unat y * unat y * unat y"
    using assms(1) by (intro mult_le_mono)
  have "unat (asert_poly x) \<le> unat (asert_poly y)"
    unfolding unat_asert_poly [OF x] unat_asert_poly [OF assms(2)]
    using assms(1) 2 3 by (intro add_mono mult_le_mono2) simp_all
  then have "unat (asert_poly x) div 2 ^ 48 \<le> unat (asert_poly y) div 2 ^ 48"
    by (rule div_le_mono)
  then show ?thesis
    unfolding unat_asert_factor(1) [OF x] unat_asert_factor(1) [OF assms(2)] by simp
qed

text \<open>The value before the clamp, as a function of the exact exponent.\<close>

lemma frac_factor_bounds:
  "65536 \<le> uint (asert_factor (word_of_int (e mod 65536)))"
  "uint (asert_factor (word_of_int (e mod 65536))) < 131072"
proof -
  have "nat (e mod 65536) \<le> 65535" by simp
  then have n: "unat (word_of_int (e mod 65536) :: 64 word) \<le> 65535" by (simp only: unat_frac)
  from unat_asert_factor(2) [OF n]
  show "65536 \<le> uint (asert_factor (word_of_int (e mod 65536)))"
    unfolding unat_eq_nat_uint by linarith
  from unat_asert_factor(3) [OF n]
  show "uint (asert_factor (word_of_int (e mod 65536))) < 131072"
    unfolding unat_eq_nat_uint by linarith
qed

lemma frac_factor_mono:
  assumes "e1 mod 65536 \<le> e2 mod 65536"
  shows "uint (asert_factor (word_of_int (e1 mod 65536))) \<le> uint (asert_factor (word_of_int (e2 mod 65536)))"
proof -
  have "nat (e2 mod 65536) \<le> 65535" by simp
  then have n: "unat (word_of_int (e2 mod 65536) :: 64 word) \<le> 65535" by (simp only: unat_frac)
  have "unat (word_of_int (e1 mod 65536) :: 64 word) \<le> unat (word_of_int (e2 mod 65536) :: 64 word)"
    unfolding unat_frac using assms by simp
  from asert_factor_mono [OF this n] show ?thesis
    by (simp only: word_le_nat_alt [symmetric] word_le_def)
qed

lemma unclamped_mono_exponent:
  fixes e1 e2 tgt :: int
  assumes le: "e1 \<le> e2" and tgt: "0 \<le> tgt"
  shows "shift_int (tgt * uint (asert_factor (word_of_int (e1 mod 65536)))) (e1 div 65536 - 16)
       \<le> shift_int (tgt * uint (asert_factor (word_of_int (e2 mod 65536)))) (e2 div 65536 - 16)"
proof -
  let ?f1 = "uint (asert_factor (word_of_int (e1 mod 65536)))"
  let ?f2 = "uint (asert_factor (word_of_int (e2 mod 65536)))"
  have d: "e1 div 65536 \<le> e2 div 65536" using le by (intro zdiv_mono1) simp_all
  show ?thesis
  proof (cases "e1 div 65536 = e2 div 65536")
    case True
    have "e1 = e1 div 65536 * 65536 + e1 mod 65536" "e2 = e2 div 65536 * 65536 + e2 mod 65536"
      by simp_all
    with True le have "e1 mod 65536 \<le> e2 mod 65536" by linarith
    then have "?f1 \<le> ?f2" by (rule frac_factor_mono)
    then have "tgt * ?f1 \<le> tgt * ?f2" using tgt by (rule mult_left_mono)
    then show ?thesis unfolding True by (rule shift_int_mono)
  next
    case False
    with d have lt: "e1 div 65536 - 16 + 1 \<le> e2 div 65536 - 16" by simp
    have "tgt * ?f1 \<le> tgt * 131072"
      using frac_factor_bounds(2) [of e1] tgt by (intro mult_left_mono) simp_all
    then have "shift_int (tgt * ?f1) (e1 div 65536 - 16) \<le> shift_int (tgt * 131072) (e1 div 65536 - 16)"
      by (rule shift_int_mono)
    also have "tgt * 131072 = 2 * (tgt * 65536)" by simp
    finally have "shift_int (tgt * ?f1) (e1 div 65536 - 16) \<le> shift_int (2 * (tgt * 65536)) (e1 div 65536 - 16)" .
    also have "\<dots> = shift_int (tgt * 65536) (e1 div 65536 - 16 + 1)"
      by (rule shift_int_double)
    also have "\<dots> \<le> shift_int (tgt * 65536) (e2 div 65536 - 16)"
      using tgt lt by (intro shift_int_mono_amount) simp_all
    also have "\<dots> \<le> shift_int (tgt * ?f2) (e2 div 65536 - 16)"
      using frac_factor_bounds(1) [of e2] tgt by (intro shift_int_mono mult_left_mono) simp_all
    finally show ?thesis .
  qed
qed

lemma asert_clamp_mono:
  assumes "x \<le> y" and "0 < m"
  shows "asert_clamp x m \<le> asert_clamp y m" and "asert_clamp y m \<le> m" and "1 \<le> asert_clamp x m"
  using assms by (auto simp add: asert_clamp_def)

lemma asert_offset_mono:
  assumes "sint et1 \<le> sint et2"
  shows "asert_offset ah apt eh et1 \<le> asert_offset ah apt eh et2"
  using assms by (simp add: asert_offset_def)

text \<open>
  C3, as amended: when the \<^verbatim>\<open>int64\<close> computation of the exponent does not overflow for
  either evaluation time, a later evaluation time yields a target that is at least the
  earlier one, and both are at most \<^verbatim>\<open>maxTarget\<close>.
\<close>

theorem asert_monotone_in_evalTime:
  assumes pre: "0 < sint anchorHeight" "0 < anchorTarget" "0 < maxTarget"
    and no1: "asert_no_overflow anchorHeight anchorParentTime evalHeight evalTime1"
    and no2: "asert_no_overflow anchorHeight anchorParentTime evalHeight evalTime2"
    and le: "sint evalTime1 \<le> sint evalTime2"
  shows "\<exists>t1 t2.
           ASERTNextTarget anchorHeight anchorParentTime anchorTarget evalHeight evalTime1 maxTarget = Inr t1 \<and>
           ASERTNextTarget anchorHeight anchorParentTime anchorTarget evalHeight evalTime2 maxTarget = Inr t2 \<and>
           t1 \<le> t2 \<and> t1 \<le> maxTarget \<and> t2 \<le> maxTarget"
proof -
  let ?o1 = "asert_offset anchorHeight anchorParentTime evalHeight evalTime1"
  let ?o2 = "asert_offset anchorHeight anchorParentTime evalHeight evalTime2"
  have "?o1 * 65536 \<le> ?o2 * 65536" using asert_offset_mono [OF le] by simp
  then have e: "sint (asert_exponent anchorHeight anchorParentTime evalHeight evalTime1)
             \<le> sint (asert_exponent anchorHeight anchorParentTime evalHeight evalTime2)"
    unfolding sint_asert_exponent [OF no1] sint_asert_exponent [OF no2]
    by (intro sdiv_mono) simp_all
  have u: "asert_unclamped anchorHeight anchorParentTime anchorTarget evalHeight evalTime1
         \<le> asert_unclamped anchorHeight anchorParentTime anchorTarget evalHeight evalTime2"
    unfolding asert_unclamped_int Let_def
    using e pre(2) by (intro unclamped_mono_exponent) simp_all
  from asert_clamp_mono [OF u pre(3)] pre show ?thesis
    by (simp add: ASERTNextTarget_def asert_clamp_def)
qed

subsection \<open>The half-life\<close>

lemma exponent_one_halflife: "asert_exponent 1 0 1 173400 = 65536"
  by (simp add: asert_exponent_def asertIdealBlockTime_def asertRadix_def asertHalflife_def int64_div_def
      signed_divide_int_def)

lemma unclamped_one_halflife: "asert_unclamped 1 0 8 1 173400 = 16"
  by (simp add: asert_unclamped_int exponent_one_halflife factor_0 shift_int_def)

text \<open>One half-life after the ideal time the target 8 has become 16.\<close>

theorem asert_monotone_in_evalTime_witness:
  "0 < sint (1 :: 64 word) \<and> (0 :: int) < 8 \<and> (0 :: int) < 100 \<and>
   asert_no_overflow 1 0 1 600 \<and> asert_no_overflow 1 0 1 173400 \<and>
   sint (600 :: 64 word) \<le> sint (173400 :: 64 word) \<and>
   ASERTNextTarget 1 0 8 1 600 100 = Inr 8 \<and> ASERTNextTarget 1 0 8 1 173400 100 = Inr 16"
proof -
  have h: "0 < sint (1 :: 64 word)" "(0 :: int) < 8" "(0 :: int) < 100"
    "asert_no_overflow 1 0 1 600" "asert_no_overflow 1 0 1 173400"
    "sint (600 :: 64 word) \<le> sint (173400 :: 64 word)"
    by (simp_all add: asert_no_overflow_def in_int64_def asert_offset_def)
  from asert_monotone_in_evalTime [OF h] h show ?thesis
    by (simp add: ASERTNextTarget_def asert_clamp_def unclamped_at_anchor unclamped_one_halflife)
qed

text \<open>
  C3 as stated fails where \<^verbatim>\<open>(timeDelta - 600*numBlocks) * 65536\<close> wraps: the later evaluation
  time \<open>2\<^sup>4\<^sup>8 - 517800\<close> gives the exponent \<open>-3 \<cdot> 65536\<close> and the target 1, below the target 8
  of the evaluation time 600.
\<close>

theorem asert_monotone_counterexample:
  "0 < sint (1 :: 64 word) \<and> (0 :: int) < 8 \<and>
   sint (600 :: 64 word) \<le> sint (281474976192856 :: 64 word) \<and>
   ASERTNextTarget 1 0 8 1 600 8 = Inr 8 \<and>
   ASERTNextTarget 1 0 8 1 281474976192856 8 = Inr 1 \<and>
   \<not> asert_no_overflow 1 0 1 281474976192856"
  by (simp add: ASERTNextTarget_def asert_clamp_def unclamped_at_anchor unclamped_wrapped
      asert_no_overflow_def in_int64_def asert_offset_def)

lemma sint_evalTime_plus_halflife:
  assumes "in_int64 (sint et + 172800)"
  shows "sint (et + 172800 :: 64 word) = sint et + 172800"
proof -
  have "sint (172800 :: 64 word) = 172800" by simp
  with assms sint_add64 [of et 172800] show ?thesis by (simp only:)
qed

lemma exponent_plus_halflife:
  assumes no1: "asert_no_overflow ah apt eh et"
    and t: "in_int64 (sint et + 172800)"
    and no2: "asert_no_overflow ah apt eh (et + 172800)"
    and sign: "0 \<le> asert_offset ah apt eh et \<or> asert_offset ah apt eh et + 172800 \<le> 0 \<or>
               172800 dvd asert_offset ah apt eh et * 65536"
  shows "sint (asert_exponent ah apt eh (et + 172800)) = sint (asert_exponent ah apt eh et) + 65536"
proof -
  let ?o = "asert_offset ah apt eh et"
  have o: "asert_offset ah apt eh (et + 172800) = ?o + 172800"
    by (simp add: asert_offset_def sint_evalTime_plus_halflife [OF t])
  have c: "0 \<le> ?o * 65536 \<or> ?o * 65536 + 65536 * 172800 \<le> 0 \<or> 172800 dvd ?o * 65536"
    using sign by auto
  have "(?o + 172800) * 65536 = ?o * 65536 + 65536 * 172800" by (simp add: algebra_simps)
  then have "((?o + 172800) * 65536) sdiv 172800 = (?o * 65536 + 65536 * 172800) sdiv 172800"
    by (simp only:)
  also have "\<dots> = (?o * 65536) sdiv 172800 + 65536"
    using c by (intro sdiv_add_multiple) simp_all
  finally show ?thesis
    unfolding sint_asert_exponent [OF no1] sint_asert_exponent [OF no2] o .
qed

text \<open>
  C2, as amended: when nothing overflows and the time offset \<^verbatim>\<open>timeDelta - 600*numBlocks\<close> is
  not strictly between \<open>-172800\<close> and 0 (or the truncating division is exact), adding one
  half-life to \<^verbatim>\<open>evalTime\<close> adds exactly \<open>2\<^sup>1\<^sup>6\<close> to the exponent, so the value \<open>u'\<close> before the
  clamp satisfies \<open>2u \<le> u' \<le> 2u + 1\<close> for the original value \<open>u\<close>, with \<open>u' = 2u\<close> once the
  offset is at least 16 half-lives (no bit is shifted out).
\<close>

theorem asert_halflife_doubles:
  assumes no1: "asert_no_overflow anchorHeight anchorParentTime evalHeight evalTime"
    and t: "in_int64 (sint evalTime + 172800)"
    and no2: "asert_no_overflow anchorHeight anchorParentTime evalHeight (evalTime + 172800)"
    and sign: "0 \<le> asert_offset anchorHeight anchorParentTime evalHeight evalTime \<or>
               asert_offset anchorHeight anchorParentTime evalHeight evalTime + 172800 \<le> 0 \<or>
               172800 dvd asert_offset anchorHeight anchorParentTime evalHeight evalTime * 65536"
  shows "2 * asert_unclamped anchorHeight anchorParentTime anchorTarget evalHeight evalTime
           \<le> asert_unclamped anchorHeight anchorParentTime anchorTarget evalHeight (evalTime + 172800) \<and>
         asert_unclamped anchorHeight anchorParentTime anchorTarget evalHeight (evalTime + 172800)
           \<le> 2 * asert_unclamped anchorHeight anchorParentTime anchorTarget evalHeight evalTime + 1 \<and>
         (16 * 172800 \<le> asert_offset anchorHeight anchorParentTime evalHeight evalTime \<longrightarrow>
            asert_unclamped anchorHeight anchorParentTime anchorTarget evalHeight (evalTime + 172800)
              = 2 * asert_unclamped anchorHeight anchorParentTime anchorTarget evalHeight evalTime)"
proof -
  define e where "e = sint (asert_exponent anchorHeight anchorParentTime evalHeight evalTime)"
  define X where "X = anchorTarget * uint (asert_factor (word_of_int (e mod 65536)))"
  define j where "j = e div 65536 - 16"
  have e': "sint (asert_exponent anchorHeight anchorParentTime evalHeight (evalTime + 172800)) = e + 65536"
    unfolding e_def using no1 t no2 sign by (rule exponent_plus_halflife)
  have m: "(e + 65536) mod 65536 = e mod 65536" by simp
  have d: "(e + 65536) div 65536 - 16 = j + 1" by (simp add: j_def)
  have u: "asert_unclamped anchorHeight anchorParentTime anchorTarget evalHeight evalTime = shift_int X j"
    unfolding asert_unclamped_int Let_def e_def [symmetric] X_def j_def ..
  have u': "asert_unclamped anchorHeight anchorParentTime anchorTarget evalHeight (evalTime + 172800)
      = shift_int X (j + 1)"
    unfolding asert_unclamped_int Let_def e' m d X_def ..
  have "0 \<le> j" if "16 * 172800 \<le> asert_offset anchorHeight anchorParentTime evalHeight evalTime"
  proof -
    have "(16 * 172800 * 65536) sdiv 172800
        \<le> (asert_offset anchorHeight anchorParentTime evalHeight evalTime * 65536) sdiv 172800"
      using that by (intro sdiv_mono) simp_all
    moreover have "(16 * 172800 * 65536 :: int) sdiv 172800 = 16 * 65536"
      by (simp add: sdiv_pos)
    ultimately have "16 * 65536 \<le> e"
      unfolding e_def sint_asert_exponent [OF no1] by simp
    then have "16 * 65536 div 65536 \<le> e div 65536" by (intro zdiv_mono1) simp_all
    then show ?thesis by (simp add: j_def)
  qed
  with shift_int_next [of X j] show ?thesis
    unfolding u u' by blast
qed

lemma exponent_16_halflives: "asert_exponent 1 0 1 2765400 = 1048576"
  by (simp add: asert_exponent_def asertIdealBlockTime_def asertRadix_def asertHalflife_def int64_div_def
      signed_divide_int_def)

lemma exponent_17_halflives: "asert_exponent 1 0 1 2938200 = 1114112"
  by (simp add: asert_exponent_def asertIdealBlockTime_def asertRadix_def asertHalflife_def int64_div_def
      signed_divide_int_def)

lemma unclamped_16_halflives: "asert_unclamped 1 0 8 1 2765400 = 524288"
  by (simp add: asert_unclamped_int exponent_16_halflives factor_0 shift_int_def)

lemma unclamped_17_halflives: "asert_unclamped 1 0 8 1 2938200 = 1048576"
  by (simp add: asert_unclamped_int exponent_17_halflives factor_0 shift_int_def)

text \<open>Sixteen half-lives after the ideal time, one more half-life doubles exactly.\<close>

theorem asert_halflife_doubles_witness:
  "asert_no_overflow 1 0 1 2765400 \<and> in_int64 (sint (2765400 :: 64 word) + 172800) \<and>
   asert_no_overflow 1 0 1 (2765400 + 172800) \<and>
   16 * 172800 \<le> asert_offset 1 0 1 2765400 \<and>
   asert_unclamped 1 0 8 1 2765400 = 524288 \<and>
   asert_unclamped 1 0 8 1 (2765400 + 172800) = 2 * 524288"
proof -
  have h: "asert_no_overflow 1 0 1 2765400" "in_int64 (sint (2765400 :: 64 word) + 172800)"
    "asert_no_overflow 1 0 1 (2765400 + 172800)"
    and o: "16 * 172800 \<le> asert_offset 1 0 1 2765400"
    by (simp_all add: asert_no_overflow_def in_int64_def asert_offset_def)
  have s: "0 \<le> asert_offset 1 0 1 2765400 \<or> asert_offset 1 0 1 2765400 + 172800 \<le> 0 \<or>
      172800 dvd asert_offset 1 0 1 2765400 * 65536"
    using o by simp
  from asert_halflife_doubles [OF h s, of 8] o h show ?thesis
    by (simp add: unclamped_16_halflives)
qed

lemma exponent_before_ideal: "asert_exponent 1 0 1 599 = 0"
  by (simp add: asert_exponent_def asertIdealBlockTime_def asertRadix_def asertHalflife_def int64_div_def
      signed_divide_int_def)

lemma exponent_before_ideal_plus: "asert_exponent 1 0 1 173399 = 65535"
  by (simp add: asert_exponent_def asertIdealBlockTime_def asertRadix_def asertHalflife_def int64_div_def
      signed_divide_int_def)

lemma factor_65535: "asert_factor 65535 = 131071"
  by (simp add: asert_factor_def asert_poly_def asertRadix_def asertPolyA_def asertPolyB_def asertPolyC_def drop_bit_eq_div)

text \<open>
  C2 as stated fails without any overflow: one second before the ideal time the truncating
  division rounds the exponent up to 0, a half-life later it rounds down to 65535, and the
  value before the clamp is multiplied by \<open>131071 / 65536\<close>, not by 2.
\<close>

theorem asert_halflife_counterexample:
  "0 < sint (1 :: 64 word) \<and>
   asert_no_overflow 1 0 1 599 \<and> asert_no_overflow 1 0 1 (599 + 172800) \<and>
   asert_unclamped 1 0 4294967296 1 599 = 4294967296 \<and>
   asert_unclamped 1 0 4294967296 1 (599 + 172800) = 8589869056 \<and>
   asert_unclamped 1 0 4294967296 1 (599 + 172800) \<noteq> 2 * asert_unclamped 1 0 4294967296 1 599"
proof -
  have a: "asert_unclamped 1 0 4294967296 1 599 = 4294967296"
    by (simp add: asert_unclamped_int exponent_before_ideal factor_0 shift_int_def)
  have b: "asert_unclamped 1 0 4294967296 1 173399 = 8589869056"
    by (simp add: asert_unclamped_int exponent_before_ideal_plus factor_65535 shift_int_def)
  show ?thesis
    by (simp add: a b asert_no_overflow_def in_int64_def asert_offset_def)
qed

section \<open>Properties of the supply accounting\<close>

lemma fold_add_sum_list:
  fixes g :: "'a \<Rightarrow> int"
  shows "fold (\<lambda>x acc. acc + g x) xs a = a + sum_list (map g xs)"
  by (induction xs arbitrary: a) simp_all

lemma era_sample_unat:
  assumes "era < unat (n div halvingInterval)"
  shows "unat (word_of_nat era * halvingInterval :: 64 word) = era * 210000"
proof -
  have "unat (n div halvingInterval) = unat n div 210000"
    by (simp add: halvingInterval_def unat_div)
  with assms have "era < unat n div 210000" by simp
  then have "Suc era \<le> unat n div 210000" by simp
  then have "Suc era * 210000 \<le> unat n"
    by (subst (asm) less_eq_div_iff_mult_less_eq) simp_all
  moreover have "unat n < 2 ^ 64" using unsigned_less [of n] by simp
  ultimately have lt: "era * 210000 < 2 ^ 64" by simp
  have "word_of_nat era * halvingInterval = (word_of_nat (era * 210000) :: 64 word)"
    by (simp add: halvingInterval_def)
  then have "unat (word_of_nat era * halvingInterval :: 64 word) = (era * 210000) mod 2 ^ 64"
    by (simp only: unat_of_nat) simp
  also have "\<dots> = era * 210000" using lt by (rule mod_less)
  finally show ?thesis .
qed

lemma era_sample_nonzero:
  assumes "era < unat (n div halvingInterval)" and "0 < era"
  shows "word_of_nat era * halvingInterval \<noteq> (0 :: 64 word)"
    and "210000 \<le> unat (word_of_nat era * halvingInterval :: 64 word)"
proof -
  show 2: "210000 \<le> unat (word_of_nat era * halvingInterval :: 64 word)"
    unfolding era_sample_unat [OF assms(1)] using assms(2) by simp
  show "word_of_nat era * halvingInterval \<noteq> (0 :: 64 word)"
  proof
    assume "word_of_nat era * halvingInterval = (0 :: 64 word)"
    then have "unat (word_of_nat era * halvingInterval :: 64 word) = 0" by simp
    with 2 show False by simp
  qed
qed

lemma full_eras_pos:
  assumes "halvingInterval \<le> n"
  shows "0 < unat (n div halvingInterval)"
proof -
  have "210000 \<le> unat n" using assms by (simp add: halvingInterval_def word_le_nat_alt)
  then have "0 < unat n div 210000" by (simp add: div_greater_zero_iff)
  then show ?thesis by (simp add: halvingInterval_def unat_div)
qed

lemma partial_sample_unat:
  "unat (n div halvingInterval * halvingInterval) = unat n div 210000 * 210000"
proof -
  have "unat n div 210000 * 210000 \<le> unat n" by simp
  moreover have "unat n < 2 ^ 64" using unsigned_less [of n] by simp
  ultimately have lt: "unat n div 210000 * 210000 < 2 ^ 64" by linarith
  have "n div halvingInterval * halvingInterval = word_of_nat (unat n div 210000 * 210000)"
    by (simp add: halvingInterval_def word_arith_nat_div)
  then have "unat (n div halvingInterval * halvingInterval) = (unat n div 210000 * 210000) mod 2 ^ 64"
    by (simp only: unat_of_nat) simp
  also have "\<dots> = unat n div 210000 * 210000" using lt by (rule mod_less)
  finally show ?thesis .
qed

lemma partial_sample_nonzero:
  assumes "halvingInterval \<le> n"
  shows "n div halvingInterval * halvingInterval \<noteq> 0"
    and "210000 \<le> unat (n div halvingInterval * halvingInterval)"
proof -
  have "210000 \<le> unat n" using assms by (simp add: halvingInterval_def word_le_nat_alt)
  then have "1 \<le> unat n div 210000" by (simp add: div_greater_zero_iff Suc_le_eq)
  then have "1 * 210000 \<le> unat n div 210000 * 210000" by (rule mult_le_mono1)
  then show 2: "210000 \<le> unat (n div halvingInterval * halvingInterval)"
    unfolding partial_sample_unat by simp
  show "n div halvingInterval * halvingInterval \<noteq> 0"
  proof
    assume "n div halvingInterval * halvingInterval = 0"
    then have "unat (n div halvingInterval * halvingInterval) = 0" by simp
    with 2 show False by simp
  qed
qed


lemma later_eras_cong:
  assumes "\<And>b. halvingInterval \<le> b \<Longrightarrow> r b = r' b" and n: "halvingInterval \<le> n"
  shows "later_eras r n = later_eras r' n"
proof -
  have hi: "halvingInterval \<le> b" if "210000 \<le> unat b" for b
    using that by (simp add: halvingInterval_def word_le_nat_alt)
  have 1: "map (\<lambda>era. 210000 * r (word_of_nat era * halvingInterval)) [1..<unat (n div halvingInterval)]
         = map (\<lambda>era. 210000 * r' (word_of_nat era * halvingInterval)) [1..<unat (n div halvingInterval)]"
  proof (rule map_cong [OF refl])
    fix era assume "era \<in> set [1..<unat (n div halvingInterval)]"
    then have "era < unat (n div halvingInterval)" "0 < era" by simp_all
    from era_sample_nonzero(2) [OF this] have "halvingInterval \<le> word_of_nat era * halvingInterval"
      by (rule hi)
    then show "210000 * r (word_of_nat era * halvingInterval) = 210000 * r' (word_of_nat era * halvingInterval)"
      by (simp only: assms(1))
  qed
  have 2: "r (n div halvingInterval * halvingInterval) = r' (n div halvingInterval * halvingInterval)"
    if "halvingInterval \<le> n"
    using partial_sample_nonzero(2) [OF that] by (intro assms(1) hi)
  show ?thesis unfolding later_eras_def 1 using n by (simp add: 2)
qed

lemma total_supply_eras:
  assumes "halvingInterval \<le> Number hdr"
  shows "GetTotalSupply r (Some hdr) = big_String (210000 * r 0 + later_eras r (Number hdr))"
proof -
  let ?n = "Number hdr"
  let ?k = "unat (?n div halvingInterval)"
  have k: "0 < ?k" using assms by (rule full_eras_pos)
  have u: "[0..<?k] = 0 # [1..<?k]" using k by (simp add: upt_conv_Cons)
  have nz: "?n div halvingInterval * halvingInterval \<noteq> 0"
    using assms by (rule partial_sample_nonzero)
  have h: "uint halvingInterval = 210000" by (simp add: halvingInterval_def)
  show ?thesis
    unfolding GetTotalSupply_def Let_def option.case fold_add_sum_list later_eras_def h
    unfolding u using nz by (simp add: o_def add.assoc)
qed

lemma circulating_supply_eras:
  assumes m: "coinbaseMaturity < Number hdr" and e: "halvingInterval \<le> Number hdr - coinbaseMaturity"
  shows "GetCirculatingSupply r (Some hdr) =
           big_String (210000 * r 1 + later_eras r (Number hdr - coinbaseMaturity))"
proof -
  let ?n = "Number hdr - coinbaseMaturity"
  let ?k = "unat (?n div halvingInterval)"
  have k: "0 < ?k" using e by (rule full_eras_pos)
  have u: "[0..<?k] = 0 # [1..<?k]" using k by (simp add: upt_conv_Cons)
  have nz: "?n div halvingInterval * halvingInterval \<noteq> 0"
    using e by (rule partial_sample_nonzero)
  have h: "uint halvingInterval = 210000" by (simp add: halvingInterval_def)
  have nm: "\<not> Number hdr \<le> coinbaseMaturity" using m by simp
  have t: "map (\<lambda>era. 210000 * r (if word_of_nat era * halvingInterval = 0 then 1
                                     else word_of_nat era * halvingInterval)) [Suc 0..<?k]
         = map (\<lambda>era. 210000 * r (word_of_nat era * halvingInterval)) [Suc 0..<?k]"
  proof (rule map_cong [OF refl])
    fix era assume "era \<in> set [Suc 0..<?k]"
    then have "era < ?k" "0 < era" by simp_all
    from era_sample_nonzero(1) [OF this]
    show "210000 * r (if word_of_nat era * halvingInterval = 0 then 1 else word_of_nat era * halvingInterval)
        = 210000 * r (word_of_nat era * halvingInterval)" by simp
  qed
  have t': "(\<Sum>era\<leftarrow>[Suc 0..<?k]. 210000 * r (if word_of_nat era * halvingInterval = 0 then 1
                                     else word_of_nat era * halvingInterval))
          = (\<Sum>era\<leftarrow>[Suc 0..<?k]. 210000 * r (word_of_nat era * halvingInterval))"
    by (simp only: t)
  show ?thesis
    unfolding GetCirculatingSupply_def Let_def option.case fold_add_sum_list later_eras_def h
    unfolding u using nz nm by (simp add: o_def t' add.assoc)
qed


text \<open>
  C9: with at least one full era, \<^verbatim>\<open>GetTotalSupply\<close> pays era 0 at the reward of block 0
  and \<^verbatim>\<open>GetCirculatingSupply\<close> pays it (on the matured height) at the reward of block 1;
  everything else both functions add is \<^const>\<open>later_eras\<close>, which reads the reward only at
  heights of at least \<^verbatim>\<open>halvingInterval\<close>, where the substitution of 1 for 0 changes nothing.
\<close>

theorem supply_era0_sampling:
  "(halvingInterval \<le> Number hdr \<longrightarrow>
      GetTotalSupply r (Some hdr) = big_String (210000 * r 0 + later_eras r (Number hdr))) \<and>
   (coinbaseMaturity < Number hdr \<and> halvingInterval \<le> Number hdr - coinbaseMaturity \<longrightarrow>
      GetCirculatingSupply r (Some hdr) =
        big_String (210000 * r 1 + later_eras r (Number hdr - coinbaseMaturity))) \<and>
   (halvingInterval \<le> n \<and> (\<forall>b. halvingInterval \<le> b \<longrightarrow> r b = r' b) \<longrightarrow>
      later_eras r n = later_eras r' n)"
  using total_supply_eras [of hdr r] circulating_supply_eras [of hdr r] later_eras_cong [of r r' n]
  by blast

text \<open>The tip 210100 under the schedule without a genesis reward.\<close>

theorem supply_era0_sampling_witness:
  "halvingInterval \<le> 210100 \<and> coinbaseMaturity < 210100 \<and> halvingInterval \<le> 210100 - coinbaseMaturity \<and>
   GetTotalSupply genesis_free_reward (Some \<lparr>Number = 210100\<rparr>) =
     big_String (210000 * genesis_free_reward 0 + later_eras genesis_free_reward 210100) \<and>
   GetCirculatingSupply genesis_free_reward (Some \<lparr>Number = 210100\<rparr>) =
     big_String (210000 * genesis_free_reward 1 + later_eras genesis_free_reward (210100 - coinbaseMaturity)) \<and>
   later_eras genesis_free_reward 210100 = later_eras (\<lambda>h. 50 div 2 ^ unat (h div 210000)) 210100"
proof -
  have h: "halvingInterval \<le> 210100" "coinbaseMaturity < 210100"
    "halvingInterval \<le> 210100 - coinbaseMaturity"
    by (simp_all add: halvingInterval_def coinbaseMaturity_def)
  have c: "\<forall>b. halvingInterval \<le> b \<longrightarrow>
      genesis_free_reward b = (\<lambda>h. 50 div 2 ^ unat (h div 210000)) b"
    by (auto simp add: genesis_free_reward_def halvingInterval_def)
  from supply_era0_sampling [of "\<lparr>Number = 210100\<rparr>" genesis_free_reward 210100
      "\<lambda>h. 50 div 2 ^ unat (h div 210000)"] h c
  show ?thesis by simp
qed

lemma big_String_10499950: "big_String 10499950 = ''10499950''"
  by (simp add: big_String_def dec_digits.simps digit_char_def)

lemma big_String_0: "big_String 0 = ''0''"
  by (simp add: big_String_def dec_digits.simps digit_char_def)

lemma big_String_2500: "big_String 2500 = ''2500''"
  by (simp add: big_String_def dec_digits.simps digit_char_def)

lemma big_String_10500000: "big_String 10500000 = ''10500000''"
  by (simp add: big_String_def dec_digits.simps digit_char_def)

lemma decimal_value_10499950: "decimal_value ''10499950'' = 10499950"
  by (simp add: decimal_value_def dec_value_def digit_value_def)

lemma decimal_value_0: "decimal_value ''0'' = 0"
  by (simp add: decimal_value_def dec_value_def digit_value_def)

lemma decimal_value_2500: "decimal_value ''2500'' = 2500"
  by (simp add: decimal_value_def dec_value_def digit_value_def)

lemma decimal_value_10500000: "decimal_value ''10500000'' = 10500000"
  by (simp add: decimal_value_def dec_value_def digit_value_def)

text \<open>
  C7 at the first halving: with no reward for the genesis block, the total supply is 10499950
  at the tip 209999 and 0 at the tip 210000, because the full-era loop of \<^verbatim>\<open>GetTotalSupply\<close>
  samples era 0 at block 0.
\<close>

theorem total_supply_drops_at_first_halving:
  "(209999 :: 64 word) \<le> 210000 \<and>
   GetTotalSupply genesis_free_reward (Some \<lparr>Number = 209999\<rparr>) = ''10499950'' \<and>
   GetTotalSupply genesis_free_reward (Some \<lparr>Number = 210000\<rparr>) = ''0'' \<and>
   decimal_value (GetTotalSupply genesis_free_reward (Some \<lparr>Number = 210000\<rparr>))
     < decimal_value (GetTotalSupply genesis_free_reward (Some \<lparr>Number = 209999\<rparr>))"
proof -
  have a: "GetTotalSupply genesis_free_reward (Some \<lparr>Number = 209999\<rparr>) = ''10499950''"
    by (simp add: GetTotalSupply_def halvingInterval_def genesis_free_reward_def Let_def big_String_10499950)
  have b: "GetTotalSupply genesis_free_reward (Some \<lparr>Number = 210000\<rparr>) = ''0''"
    by (simp add: GetTotalSupply_def halvingInterval_def genesis_free_reward_def Let_def big_String_0)
  show ?thesis
    unfolding a b decimal_value_10499950 decimal_value_0 by simp
qed

text \<open>
  C8 at the tip 210100: with no reward for the genesis block, the circulating supply is
  10500000 and the total supply is 2500.
\<close>

theorem circulating_exceeds_total_after_first_halving:
  "GetCirculatingSupply genesis_free_reward (Some \<lparr>Number = 210100\<rparr>) = ''10500000'' \<and>
   GetTotalSupply genesis_free_reward (Some \<lparr>Number = 210100\<rparr>) = ''2500'' \<and>
   decimal_value (GetTotalSupply genesis_free_reward (Some \<lparr>Number = 210100\<rparr>))
     < decimal_value (GetCirculatingSupply genesis_free_reward (Some \<lparr>Number = 210100\<rparr>))"
proof -
  have a: "GetCirculatingSupply genesis_free_reward (Some \<lparr>Number = 210100\<rparr>) = ''10500000''"
    by (simp add: GetCirculatingSupply_def halvingInterval_def coinbaseMaturity_def
        genesis_free_reward_def Let_def big_String_10500000)
  have b: "GetTotalSupply genesis_free_reward (Some \<lparr>Number = 210100\<rparr>) = ''2500''"
    by (simp add: GetTotalSupply_def halvingInterval_def genesis_free_reward_def Let_def big_String_2500)
  show ?thesis
    unfolding a b decimal_value_10500000 decimal_value_2500 by simp
qed

subsection \<open>Decimal strings\<close>

lemma digit_value_digit_char: "d < 10 \<Longrightarrow> digit_value (digit_char d) = d"
proof -
  assume "d < 10"
  then have "d = 0 \<or> d = 1 \<or> d = 2 \<or> d = 3 \<or> d = 4 \<or> d = 5 \<or> d = 6 \<or> d = 7 \<or> d = 8 \<or> d = 9"
    by arith
  then show ?thesis
    by (elim disjE) (simp_all add: digit_value_def digit_char_def)
qed

lemma digit_char_not_minus: "d < 10 \<Longrightarrow> digit_char d \<noteq> CHR ''-''"
proof -
  assume "d < 10"
  then have "d = 0 \<or> d = 1 \<or> d = 2 \<or> d = 3 \<or> d = 4 \<or> d = 5 \<or> d = 6 \<or> d = 7 \<or> d = 8 \<or> d = 9"
    by arith
  then show ?thesis
    by (elim disjE) (simp_all add: digit_char_def)
qed

lemma dec_value_snoc: "dec_value (cs @ [c]) = 10 * dec_value cs + digit_value c"
  by (simp add: dec_value_def)

lemma dec_value_dec_digits: "dec_value (dec_digits n) = n"
proof (induction n rule: dec_digits.induct)
  case (1 n)
  show ?case
  proof (cases "n < 10")
    case True
    then show ?thesis
      by (subst dec_digits.simps) (simp add: dec_value_def digit_value_digit_char)
  next
    case False
    with 1 have "dec_value (dec_digits (n div 10)) = n div 10" by simp
    then show ?thesis using False
      by (subst dec_digits.simps) (simp add: dec_value_snoc digit_value_digit_char)
  qed
qed

lemma dec_digits_head: "\<exists>c cs. dec_digits n = c # cs \<and> c \<noteq> CHR ''-''"
proof (induction n rule: dec_digits.induct)
  case (1 n)
  show ?case
  proof (cases "n < 10")
    case True
    then show ?thesis
      by (subst dec_digits.simps) (simp add: digit_char_not_minus)
  next
    case False
    with 1 obtain c cs where "dec_digits (n div 10) = c # cs" "c \<noteq> CHR ''-''" by auto
    then show ?thesis using False
      by (subst dec_digits.simps) simp
  qed
qed

lemma decimal_value_big_String: "decimal_value (big_String x) = x"
proof (cases "x < 0")
  case True
  then show ?thesis
    by (simp add: big_String_def decimal_value_def dec_value_dec_digits)
next
  case False
  from dec_digits_head [of "nat x"] obtain c cs where
    d: "dec_digits (nat x) = c # cs" "c \<noteq> CHR ''-''" by blast
  have "decimal_value (dec_digits (nat x)) = int (dec_value (dec_digits (nat x)))"
    unfolding decimal_value_def d using d(2) by simp
  then show ?thesis using False
    by (simp add: big_String_def dec_value_dec_digits)
qed

lemma era_emissions_nonneg:
  assumes "\<And>e. 0 \<le> sample e"
  shows "0 \<le> era_emissions sample q m"
  unfolding era_emissions_def using assms
  by (intro add_nonneg_nonneg sum_list_nonneg mult_nonneg_nonneg) auto

lemma era_emissions_mono_eras:
  assumes "\<And>e. 0 \<le> sample e" and "q1 \<le> q2"
  shows "era_emissions sample q1 0 \<le> era_emissions sample q2 0"
  using assms(2)
proof (induction q2)
  case 0
  then show ?case by simp
next
  case (Suc q2)
  show ?case
  proof (cases "q1 = Suc q2")
    case True
    then show ?thesis by simp
  next
    case False
    with Suc have "era_emissions sample q1 0 \<le> era_emissions sample q2 0" by simp
    also have "\<dots> \<le> era_emissions sample (Suc q2) 0"
      using assms(1) [of q2] by (simp add: era_emissions_def)
    finally show ?thesis .
  qed
qed

lemma era_emissions_mono:
  assumes nn: "\<And>e. 0 \<le> sample e" and m1: "m1 \<le> 210000"
    and le: "q1 < q2 \<or> q1 = q2 \<and> m1 \<le> m2"
  shows "era_emissions sample q1 m1 \<le> era_emissions sample q2 m2"
proof (cases "q1 = q2")
  case True
  with le have "m1 \<le> m2" by simp
  then have "int m1 * sample q2 \<le> int m2 * sample q2"
    using nn [of q2] by (intro mult_right_mono) simp_all
  then show ?thesis using True by (simp add: era_emissions_def)
next
  case False
  with le have lt: "Suc q1 \<le> q2" by simp
  have "int m1 * sample q1 \<le> 210000 * sample q1"
    using nn [of q1] m1 by (intro mult_right_mono) simp_all
  then have "era_emissions sample q1 m1 \<le> era_emissions sample (Suc q1) 0"
    by (simp add: era_emissions_def)
  also have "\<dots> \<le> era_emissions sample q2 0"
    using nn lt by (rule era_emissions_mono_eras)
  also have "\<dots> \<le> era_emissions sample q2 m2"
    using nn [of q2] by (simp add: era_emissions_def)
  finally show ?thesis .
qed

subsection \<open>Both figures as era summations\<close>

lemma div_mod_lex:
  fixes n1 n2 d :: nat
  assumes "n1 \<le> n2"
  shows "n1 div d < n2 div d \<or> n1 div d = n2 div d \<and> n1 mod d \<le> n2 mod d"
proof (cases "n1 div d = n2 div d")
  case True
  have "n1 = d * (n1 div d) + n1 mod d" "n2 = d * (n2 div d) + n2 mod d" by simp_all
  with True assms have "n1 mod d \<le> n2 mod d" by (metis add_le_cancel_left)
  with True show ?thesis by simp
next
  case False
  moreover have "n1 div d \<le> n2 div d" using assms by (rule div_le_mono)
  ultimately show ?thesis by simp
qed

lemma partial_era_eq:
  fixes n :: "64 word"
  shows "(if n mod halvingInterval > 0
          then e + uint (n mod halvingInterval) *
                 r (if n div halvingInterval * halvingInterval = 0 then 1
                    else n div halvingInterval * halvingInterval)
          else e)
       = e + int (unat n mod 210000) * avoid_genesis r (unat n div 210000)"
proof -
  have d: "n div halvingInterval = word_of_nat (unat n div 210000)"
    by (simp add: halvingInterval_def word_arith_nat_div)
  have m: "unat (n mod halvingInterval) = unat n mod 210000"
    by (simp add: halvingInterval_def unat_mod)
  have u: "uint (n mod halvingInterval) = int (unat n mod 210000)"
    unfolding m [symmetric] by simp
  have z: "n mod halvingInterval > 0 \<longleftrightarrow> 0 < unat n mod 210000"
    unfolding m [symmetric] by (simp add: word_less_nat_alt)
  show ?thesis
    unfolding z u avoid_genesis_def d by simp
qed

lemma full_eras_circulating:
  fixes n :: "64 word"
  shows "fold (\<lambda>era emissions. emissions + uint halvingInterval *
                 r (if era * halvingInterval = 0 then 1 else era * halvingInterval))
              (map word_of_nat [0..<unat (n div halvingInterval)]) 0
       = (\<Sum>era\<leftarrow>[0..<unat n div 210000]. 210000 * avoid_genesis r era)"
proof -
  have k: "unat (n div halvingInterval) = unat n div 210000"
    by (simp add: halvingInterval_def unat_div)
  have h: "uint halvingInterval = 210000" by (simp add: halvingInterval_def)
  show ?thesis
    unfolding fold_add_sum_list k h by (simp add: o_def avoid_genesis_def)
qed

lemma full_eras_total:
  fixes n :: "64 word"
  shows "fold (\<lambda>era emissions. emissions + uint halvingInterval * r (era * halvingInterval))
              (map word_of_nat [0..<unat (n div halvingInterval)]) 0
       = (\<Sum>era\<leftarrow>[0..<unat n div 210000]. 210000 * avoid_genesis r era)
         + (if 0 < unat n div 210000 then 210000 * (r 0 - r 1) else 0)"
proof -
  let ?q = "unat n div 210000"
  have k: "unat (n div halvingInterval) = ?q"
    by (simp add: halvingInterval_def unat_div)
  have h: "uint halvingInterval = 210000" by (simp add: halvingInterval_def)
  have f: "fold (\<lambda>era emissions. emissions + uint halvingInterval * r (era * halvingInterval))
              (map word_of_nat [0..<unat (n div halvingInterval)]) 0
         = (\<Sum>era\<leftarrow>[0..<?q]. 210000 * r (word_of_nat era * halvingInterval))"
    unfolding fold_add_sum_list k h by (simp add: o_def)
  show ?thesis
  proof (cases "0 < ?q")
    case False
    then show ?thesis unfolding f by simp
  next
    case True
    then have u: "[0..<?q] = 0 # [Suc 0..<?q]" by (simp add: upt_conv_Cons)
    have t: "map (\<lambda>era. 210000 * r (word_of_nat era * halvingInterval)) [Suc 0..<?q]
           = map (\<lambda>era. 210000 * avoid_genesis r era) [Suc 0..<?q]"
    proof (rule map_cong [OF refl])
      fix era assume "era \<in> set [Suc 0..<?q]"
      then have "era < unat (n div halvingInterval)" "0 < era" by (simp_all add: k)
      from era_sample_nonzero(1) [OF this]
      show "210000 * r (word_of_nat era * halvingInterval) = 210000 * avoid_genesis r era"
        by (simp add: avoid_genesis_def)
    qed
    have "(\<Sum>era\<leftarrow>[0..<?q]. 210000 * r (word_of_nat era * halvingInterval))
        = 210000 * r 0 + (\<Sum>era\<leftarrow>[Suc 0..<?q]. 210000 * avoid_genesis r era)"
      unfolding u by (simp add: t)
    moreover have "(\<Sum>era\<leftarrow>[0..<?q]. 210000 * avoid_genesis r era)
        = 210000 * r 1 + (\<Sum>era\<leftarrow>[Suc 0..<?q]. 210000 * avoid_genesis r era)"
      unfolding u by (simp add: avoid_genesis_def)
    ultimately show ?thesis unfolding f using True by (simp add: algebra_simps)
  qed
qed

lemma GetCirculatingSupply_emissions:
  "GetCirculatingSupply r (Some hdr) =
     (if Number hdr \<le> coinbaseMaturity then ''0''
      else big_String (era_emissions (avoid_genesis r)
             (unat (Number hdr - coinbaseMaturity) div 210000)
             (unat (Number hdr - coinbaseMaturity) mod 210000)))"
  unfolding GetCirculatingSupply_def Let_def option.case full_eras_circulating partial_era_eq
    era_emissions_def ..

lemma GetTotalSupply_emissions:
  "GetTotalSupply r (Some hdr) =
     big_String (era_emissions (avoid_genesis r) (unat (Number hdr) div 210000) (unat (Number hdr) mod 210000)
                 + (if 0 < unat (Number hdr) div 210000 then 210000 * (r 0 - r 1) else 0))"
  unfolding GetTotalSupply_def Let_def option.case full_eras_total partial_era_eq
    era_emissions_def by (simp add: algebra_simps)

subsection \<open>Monotonicity when the genesis reward is not the smaller one\<close>

text \<open>
  With a non-negative reward the circulating supply never decreases with the height.  The
  total supply needs in addition that block 0 is not paid less than block 1, which is where
  the full-era loop of \<^verbatim>\<open>GetTotalSupply\<close> differs from the other three sampling sites.
\<close>

lemma avoid_genesis_nonneg:
  assumes "\<And>h. 0 \<le> r h"
  shows "0 \<le> avoid_genesis r e"
  by (simp add: avoid_genesis_def assms)

lemma circulating_supply_mono:
  assumes nn: "\<And>h. 0 \<le> r h" and le: "Number h1 \<le> Number h2"
  shows "decimal_value (GetCirculatingSupply r (Some h1))
       \<le> decimal_value (GetCirculatingSupply r (Some h2))"
proof (cases "Number h1 \<le> coinbaseMaturity")
  case True
  have "0 \<le> decimal_value (GetCirculatingSupply r (Some h2))"
    unfolding GetCirculatingSupply_emissions
    using era_emissions_nonneg [of "avoid_genesis r", OF avoid_genesis_nonneg [of r, OF nn]]
    by (simp add: decimal_value_big_String decimal_value_0)
  then show ?thesis
    unfolding GetCirculatingSupply_emissions [of r h1] using True by (simp add: decimal_value_0)
next
  case False
  then have a: "coinbaseMaturity < Number h1" by simp
  with le have b: "\<not> Number h2 \<le> coinbaseMaturity" by simp
  have "unat (Number h1 - coinbaseMaturity) = unat (Number h1) - unat coinbaseMaturity"
    using a by (intro unat_sub) simp
  moreover have "unat (Number h2 - coinbaseMaturity) = unat (Number h2) - unat coinbaseMaturity"
    using b by (intro unat_sub) simp
  moreover have "unat (Number h1) \<le> unat (Number h2)" using le by (simp add: word_le_nat_alt)
  ultimately have n: "unat (Number h1 - coinbaseMaturity) \<le> unat (Number h2 - coinbaseMaturity)"
    by simp
  have "era_emissions (avoid_genesis r)
          (unat (Number h1 - coinbaseMaturity) div 210000) (unat (Number h1 - coinbaseMaturity) mod 210000)
      \<le> era_emissions (avoid_genesis r)
          (unat (Number h2 - coinbaseMaturity) div 210000) (unat (Number h2 - coinbaseMaturity) mod 210000)"
    using avoid_genesis_nonneg [of r, OF nn] div_mod_lex [OF n, of 210000]
    by (intro era_emissions_mono) simp_all
  then show ?thesis
    unfolding GetCirculatingSupply_emissions using False b by (simp add: decimal_value_big_String)
qed

lemma total_supply_mono:
  assumes nn: "\<And>h. 0 \<le> r h" and g: "r 1 \<le> r 0" and le: "Number h1 \<le> Number h2"
  shows "decimal_value (GetTotalSupply r (Some h1)) \<le> decimal_value (GetTotalSupply r (Some h2))"
proof -
  have n: "unat (Number h1) \<le> unat (Number h2)" using le by (simp add: word_le_nat_alt)
  have 1: "era_emissions (avoid_genesis r) (unat (Number h1) div 210000) (unat (Number h1) mod 210000)
      \<le> era_emissions (avoid_genesis r) (unat (Number h2) div 210000) (unat (Number h2) mod 210000)"
    using avoid_genesis_nonneg [of r, OF nn] div_mod_lex [OF n, of 210000]
    by (intro era_emissions_mono) simp_all
  have "unat (Number h1) div 210000 \<le> unat (Number h2) div 210000" using n by (rule div_le_mono)
  then have 2: "(if 0 < unat (Number h1) div 210000 then 210000 * (r 0 - r 1) else 0)
      \<le> (if 0 < unat (Number h2) div 210000 then 210000 * (r 0 - r 1) else 0)"
    using g by auto
  from 1 2 show ?thesis
    unfolding GetTotalSupply_emissions decimal_value_big_String by (rule add_mono)
qed

lemma circulating_le_total:
  assumes nn: "\<And>h. 0 \<le> r h" and g: "r 1 \<le> r 0"
  shows "decimal_value (GetCirculatingSupply r (Some hdr)) \<le> decimal_value (GetTotalSupply r (Some hdr))"
proof -
  have t: "0 \<le> (if 0 < unat (Number hdr) div 210000 then 210000 * (r 0 - r 1) else 0)"
    using g by simp
  show ?thesis
  proof (cases "Number hdr \<le> coinbaseMaturity")
    case True
    have "0 \<le> era_emissions (avoid_genesis r) (unat (Number hdr) div 210000) (unat (Number hdr) mod 210000)"
      using avoid_genesis_nonneg [of r, OF nn] by (intro era_emissions_nonneg)
    with t show ?thesis
      unfolding GetCirculatingSupply_emissions GetTotalSupply_emissions decimal_value_big_String
      using True by (simp add: decimal_value_0)
  next
    case False
    then have "unat (Number hdr - coinbaseMaturity) = unat (Number hdr) - unat coinbaseMaturity"
      by (intro unat_sub) simp
    then have n: "unat (Number hdr - coinbaseMaturity) \<le> unat (Number hdr)" by simp
    have "era_emissions (avoid_genesis r)
            (unat (Number hdr - coinbaseMaturity) div 210000) (unat (Number hdr - coinbaseMaturity) mod 210000)
        \<le> era_emissions (avoid_genesis r) (unat (Number hdr) div 210000) (unat (Number hdr) mod 210000)"
      using avoid_genesis_nonneg [of r, OF nn] div_mod_lex [OF n, of 210000]
      by (intro era_emissions_mono) simp_all
    with t show ?thesis
      unfolding GetCirculatingSupply_emissions GetTotalSupply_emissions decimal_value_big_String
      using False by (simp add: decimal_value_big_String)
  qed
qed

end
